theory Spec2Isabelle
  imports Main "HOL-Library.Multiset"
begin

section \<open>Python values used by the stemmer\<close>

text \<open>
  The stemmer (\<^verbatim>\<open>src/tglstemmer/stemmer.py\<close>) works on Python strings. A string is
  modelled as a \<^typ>\<open>string\<close> (a list of 8-bit characters), so the model covers ASCII
  text; \<^verbatim>\<open>len\<close> is \<^const>\<open>length\<close>. The only exception the stemming code can raise
  is \<^verbatim>\<open>IndexError\<close>, from reading a string or a list at a position it does not have.
\<close>

datatype error = IndexError

definition bind :: "error + 'a \<Rightarrow> ('a \<Rightarrow> error + 'b) \<Rightarrow> error + 'b" where
  "bind m f = (case m of Inl e \<Rightarrow> Inl e | Inr x \<Rightarrow> f x)"

text \<open>\<^verbatim>\<open>s[i]\<close>: a negative index counts from the end, a position outside the string raises.\<close>

definition index :: "'a list \<Rightarrow> int \<Rightarrow> error + 'a" where
  "index s i =
     (let n = int (length s); j = (if i < 0 then n + i else i)
      in if 0 \<le> j \<and> j < n then Inr (s ! nat j) else Inl IndexError)"

text \<open>
  \<open>at s i\<close> stands for \<^verbatim>\<open>s[i]\<close> at the places where the source has already checked the
  length of \<^verbatim>\<open>s\<close> (the guard sits to the left of the read in the same condition, or in
  an enclosing \<^verbatim>\<open>if\<close>), so the read cannot raise there. It is the one-character string
  at position \<open>i\<close>, and the empty string where there is no such position.
\<close>

definition at :: "string \<Rightarrow> int \<Rightarrow> string" where
  "at s i = (case index s i of Inr c \<Rightarrow> [c] | Inl e \<Rightarrow> [])"

text \<open>Slices never raise: \<^verbatim>\<open>s[a:]\<close>, \<^verbatim>\<open>s[a:b]\<close>, \<^verbatim>\<open>s[:-k]\<close> and \<^verbatim>\<open>s[-k:]\<close> (for \<open>k > 0\<close>).\<close>

definition slice_from :: "string \<Rightarrow> nat \<Rightarrow> string" where
  "slice_from s a = drop a s"

definition slice :: "string \<Rightarrow> nat \<Rightarrow> nat \<Rightarrow> string" where
  "slice s a b = take (b - a) (drop a s)"

definition drop_last :: "string \<Rightarrow> nat \<Rightarrow> string" where
  "drop_last s k = take (length s - k) s"

definition take_last :: "string \<Rightarrow> nat \<Rightarrow> string" where
  "take_last s k = drop (length s - k) s"

definition startswith :: "string \<Rightarrow> string \<Rightarrow> bool" where
  "startswith s p = (take (length p) s = p)"

definition endswith :: "string \<Rightarrow> string \<Rightarrow> bool" where
  "endswith s p = (length p \<le> length s \<and> drop (length s - length p) s = p)"

text \<open>\<^verbatim>\<open>s.split(sep)\<close> for a one-character separator.\<close>

fun split :: "char \<Rightarrow> string \<Rightarrow> string list" where
  "split sep [] = [[]]"
| "split sep (c # cs) =
     (if c = sep then [] # split sep cs
      else (case split sep cs of [] \<Rightarrow> [[c]] | w # ws \<Rightarrow> (c # w) # ws))"

text \<open>\<^verbatim>\<open>str.lower()\<close> and \<^verbatim>\<open>str.strip()\<close> on ASCII text.\<close>

definition lower_char :: "char \<Rightarrow> char" where
  "lower_char c =
     (let n = (of_char c :: nat) in if 65 \<le> n \<and> n \<le> 90 then char_of (n + 32) else c)"

definition lower :: "string \<Rightarrow> string" where
  "lower s = map lower_char s"

definition isspace :: "char \<Rightarrow> bool" where
  "isspace c = (c \<in> set [CHR 0x09, CHR 0x0A, CHR 0x0B, CHR 0x0C, CHR 0x0D,
                           CHR 0x1C, CHR 0x1D, CHR 0x1E, CHR 0x1F, CHR 0x20])"

definition strip :: "string \<Rightarrow> string" where
  "strip s = rev (dropWhile isspace (rev (dropWhile isspace s)))"

section \<open>The candidate record (\<^verbatim>\<open>stem.py\<close>)\<close>

text \<open>
  \<^verbatim>\<open>class Stem(str)\<close>: a string with ten optional annotations. Every string operation
  the class overrides (\<^verbatim>\<open>__getitem__\<close>, \<^verbatim>\<open>__add__\<close>, \<^verbatim>\<open>__radd__\<close>, \<^verbatim>\<open>split\<close>) builds
  the new \<^verbatim>\<open>Stem\<close> from the new text and \<^verbatim>\<open>**self.__dict__\<close>, that is, it replaces the
  text and keeps the annotations: in the model, a record update of \<open>text\<close>.
  Equality and hashing are inherited from \<^verbatim>\<open>str\<close>: two candidates are equal when
  their texts are.
\<close>

record stem =
  "text" :: string
  pre :: "string option"
  inf :: "string option"
  suf :: "string option"
  rep :: "string option"
  dup :: "string option"
  contraction :: "string option"
  phoneme_change :: "string option"
  assimilation :: "string option"
  vowel_loss :: "string option"
  metathesis :: "bool option"

definition Stem :: "string \<Rightarrow> stem" where
  "Stem s = \<lparr>text = s, pre = None, inf = None, suf = None, rep = None, dup = None,
             contraction = None, phoneme_change = None, assimilation = None,
             vowel_loss = None, metathesis = None\<rparr>"

text \<open>\<^verbatim>\<open>len(x or "")\<close> and \<^verbatim>\<open>bool(x)\<close> for an optional string, \<^verbatim>\<open>bool(x)\<close> for an optional flag.\<close>

definition len_or_empty :: "string option \<Rightarrow> nat" where
  "len_or_empty x = (case x of None \<Rightarrow> 0 | Some s \<Rightarrow> length s)"

definition truthy :: "string option \<Rightarrow> bool" where
  "truthy x = (case x of None \<Rightarrow> False | Some s \<Rightarrow> s \<noteq> [])"

definition truthy_flag :: "bool option \<Rightarrow> bool" where
  "truthy_flag x = (case x of None \<Rightarrow> False | Some b \<Rightarrow> b)"

definition count_affixes :: "stem \<Rightarrow> nat" where
  "count_affixes c = len_or_empty (pre c) + len_or_empty (inf c) + len_or_empty (suf c)"

definition count_reduplication :: "stem \<Rightarrow> nat" where
  "count_reduplication c = len_or_empty (rep c) + len_or_empty (dup c)"

definition count_transformations :: "stem \<Rightarrow> nat" where
  "count_transformations c =
     of_bool (truthy (phoneme_change c)) + of_bool (truthy (assimilation c))
     + of_bool (truthy (vowel_loss c)) + of_bool (truthy_flag (metathesis c))"

section \<open>Helpers (\<^verbatim>\<open>helpers/manipulation.py\<close>, \<^verbatim>\<open>helpers/validation.py\<close>)\<close>

text \<open>
  The alphabet (\<^verbatim>\<open>helpers/alphabet.py\<close>) and the affix lists (read from resource files
  by \<^verbatim>\<open>helpers/affixes.py\<close>) are not part of the sources at hand: they are parameters
  of the model, collected in \<open>env\<close>.

  A Python \<^verbatim>\<open>set\<close> of candidates is a list of candidates with pairwise different
  texts, in the order they were inserted. CPython visits a set in hash order, which for
  strings changes from run to run; \<open>set_iter\<close> stands for that order: it is applied
  wherever the source iterates over a set, and the theorems below hold for every
  \<open>set_iter\<close> that permutes its argument.
\<close>

type_synonym stem_set = "stem list"

record env =
  VOWELS :: string
  CONSONANTS :: string
  PREFIXES :: "string list"
  INFIXES :: "string list"
  SUFFIXES :: "string list"
  set_iter :: "stem list \<Rightarrow> stem list"

definition set_add :: "stem_set \<Rightarrow> stem \<Rightarrow> stem_set" where
  "set_add S c = (if text c \<in> set (map text S) then S else S @ [c])"

definition set_update :: "stem_set \<Rightarrow> stem list \<Rightarrow> stem_set" where
  "set_update S cs = foldl set_add S cs"

definition replace_letter :: "stem \<Rightarrow> int \<Rightarrow> char \<Rightarrow> error + stem" where
  "replace_letter token i letter =
     bind (index (text token) i)
       (\<lambda>old. let n = int (length (text token)); j = (if i < 0 then n + i else i)
              in Inr (token\<lparr>text := (text token)[nat j := letter]\<rparr>))"

definition swap_letters :: "stem \<Rightarrow> int \<Rightarrow> int \<Rightarrow> error + stem" where
  "swap_letters token index1 index2 =
     bind (index (text token) index1) (\<lambda>index1_letter.
     bind (index (text token) index2) (\<lambda>index2_letter.
       let n = int (length (text token));
           j1 = (if index1 < 0 then n + index1 else index1);
           j2 = (if index2 < 0 then n + index2 else index2)
       in Inr (token\<lparr>text := ((text token)[nat j1 := index2_letter])[nat j2 := index1_letter]\<rparr>)))"

text \<open>
  \<^verbatim>\<open>is_valid\<close> returns the token or \<^verbatim>\<open>False\<close>: \<open>Some token\<close> or \<open>None\<close>. An absent and an
  empty word list are both falsy for \<^verbatim>\<open>not valid_words\<close>. Where the result is used as
  a condition, Python tests its truth value: a returned token counts as true when it is
  not the empty string (\<open>is_true\<close>).
\<close>

definition is_valid :: "stem \<Rightarrow> string list option \<Rightarrow> stem option" where
  "is_valid token valid_words =
     (case valid_words of
        None \<Rightarrow> Some token
      | Some ws \<Rightarrow> if ws = [] then Some token
                   else if text token \<in> set ws then Some token else None)"

definition is_true :: "stem option \<Rightarrow> bool" where
  "is_true r = (case r of None \<Rightarrow> False | Some c \<Rightarrow> text c \<noteq> [])"

definition is_vowel :: "env \<Rightarrow> string \<Rightarrow> bool" where
  "is_vowel E substring = list_all (\<lambda>letter. lower_char letter \<in> set (VOWELS E)) substring"

definition is_consonant :: "env \<Rightarrow> string \<Rightarrow> bool" where
  "is_consonant E substring =
     list_all (\<lambda>letter. lower_char letter \<in> set (CONSONANTS E)) substring"

text \<open>
  \<^verbatim>\<open>is_acceptable\<close> reads \<^verbatim>\<open>token[0]\<close> with no length check: it raises on the empty
  string. It returns the token (true, as the token is then not empty) or \<^verbatim>\<open>False\<close>.
\<close>

definition is_acceptable :: "env \<Rightarrow> string \<Rightarrow> error + bool" where
  "is_acceptable E token =
     bind (index token 0) (\<lambda>c0.
       if is_vowel E [c0] then
         Inr (length token = 2 \<or> (length token \<ge> 3 \<and> list_ex (\<lambda>c. is_consonant E [c]) token))
       else if is_consonant E [c0] then
         Inr (length token = 3 \<or> (length token \<ge> 4 \<and> list_ex (\<lambda>c. is_vowel E [c]) token))
       else Inr False)"

section \<open>The rule cascade (\<^verbatim>\<open>stemmer.py\<close>)\<close>

text \<open>
  Every rule function is a loop over the tokens (and over an affix list) whose body
  calls \<^verbatim>\<open>stems.add\<close>; it never reads the set it is filling. A body is modelled by
  the list of candidates it adds, in order; \<open>collect body xs\<close> runs the loop and gives
  all the added candidates, or the exception of the first iteration that raises.
\<close>

fun collect :: "('a \<Rightarrow> error + stem list) \<Rightarrow> 'a list \<Rightarrow> error + stem list" where
  "collect body [] = Inr []"
| "collect body (x # xs) =
     bind (body x) (\<lambda>added. bind (collect body xs) (\<lambda>rest. Inr (added @ rest)))"

text \<open>\<^verbatim>\<open>a == b\<close> between the result of \<^verbatim>\<open>replace_letter\<close> and a string (under a length guard).\<close>

definition eq_text :: "error + stem \<Rightarrow> string \<Rightarrow> bool" where
  "eq_text r s = (case r of Inr c \<Rightarrow> text c = s | Inl e \<Rightarrow> False)"

subsection \<open>\<^verbatim>\<open>stem_pre\<close>\<close>

definition stem_pre_phch :: "env \<Rightarrow> string \<Rightarrow> stem \<Rightarrow> error + stem list" where
  "stem_pre_phch E prefix stem =
     bind (index (text stem) 0) (\<lambda>c0.
       if c0 = CHR ''r'' then
         bind (index prefix (-1)) (\<lambda>p_last.
         bind (index (text stem) 1) (\<lambda>c1.
           if is_vowel E [p_last, c1] then
             Inr [stem\<lparr>text := ''d'' @ slice_from (text stem) 1,
                       phoneme_change := Some ''pre: d/r''\<rparr>]
           else Inr []))
       else Inr [])"

definition stem_pre_ng :: "env \<Rightarrow> stem \<Rightarrow> error + stem list" where
  "stem_pre_ng E stem =
     (let s = text stem;
          stem_asml_knull = stem\<lparr>text := ''k'' @ s, assimilation := Some ''k/null''\<rparr>
      in if length s > 3 \<and> slice s 1 3 = ''ng'' \<and> at s 0 = at s 3 \<and> is_vowel E (at s 0) then
           (let stem_ng_rep = stem\<lparr>text := slice_from s 3, rep := Some (slice s 0 3)\<rparr>
            in bind (is_acceptable E (text stem_ng_rep)) (\<lambda>ok.
                 Inr ([stem_asml_knull, stem_ng_rep]
                      @ (if ok then [stem_ng_rep\<lparr>text := ''k'' @ text stem_ng_rep,
                                                 assimilation := Some ''k/null''\<rparr>]
                         else []))))
         else Inr [stem_asml_knull])"

definition stem_pre_letters :: "string \<Rightarrow> string \<Rightarrow> char \<Rightarrow> stem \<Rightarrow> env \<Rightarrow> stem list" where
  "stem_pre_letters letters tag nasal stem E =
     (let s = text stem
      in map (\<lambda>l. stem\<lparr>text := [l] @ s, assimilation := Some (tag @ [l])\<rparr>) letters
         @ (if length s > 2 \<and> at s 1 = [nasal] \<and> at s 0 = at s 2 \<and> is_vowel E (at s 0) then
              map (\<lambda>l. stem\<lparr>text := [l] @ slice_from s 2, assimilation := Some (tag @ [l])\<rparr>)
                letters
            else []))"

definition stem_pre_asml :: "env \<Rightarrow> string \<Rightarrow> stem \<Rightarrow> error + stem list" where
  "stem_pre_asml E prefix stem =
     bind (is_acceptable E (text stem)) (\<lambda>ok.
       if ok then
         bind (index (text stem) 0) (\<lambda>c0.
           if is_vowel E [c0] then
             (if endswith prefix ''ng'' then stem_pre_ng E stem
              else if endswith prefix ''m'' then
                Inr (stem_pre_letters ''bp'' ''b/p: '' CHR ''m'' stem E)
              else if endswith prefix ''n'' then
                Inr (stem_pre_letters ''dst'' ''d/s/t: '' CHR ''n'' stem E)
              else Inr [])
           else Inr [])
       else Inr [])"

definition stem_pre_body :: "env \<Rightarrow> stem \<Rightarrow> string \<Rightarrow> error + stem list" where
  "stem_pre_body E token prefix =
     (if startswith (text token) prefix \<and> length (text token) > length prefix then
        (let stripped = token\<lparr>text := slice_from (text token) (length prefix),
                               pre := Some prefix\<rparr>
         in bind (index (text stripped) 0) (\<lambda>c0.
              let stem = (if c0 = CHR ''-''
                          then stripped\<lparr>text := slice_from (text stripped) 1\<rparr>
                          else stripped)
              in bind (stem_pre_phch E prefix stem) (\<lambda>phch.
                 bind (stem_pre_asml E prefix stem) (\<lambda>asml.
                   Inr ([stem] @ phch @ asml)))))
      else Inr [])"

definition stem_pre :: "env \<Rightarrow> stem_set \<Rightarrow> error + stem_set" where
  "stem_pre E tokens =
     bind (collect (\<lambda>token. collect (stem_pre_body E token) (PREFIXES E)) (set_iter E tokens))
       (\<lambda>added. Inr (set_update [] added))"

subsection \<open>\<^verbatim>\<open>stem_inf\<close>\<close>

definition stem_inf_body :: "env \<Rightarrow> stem \<Rightarrow> string \<Rightarrow> error + stem list" where
  "stem_inf_body E token infix =
     (let t = text token
      in if length t > length infix + 1 then
           bind (if startswith t infix then bind (index t 2) (\<lambda>c2. Inr (is_vowel E [c2]))
                 else Inr False)
             (\<lambda>infix_first.
                let stem =
                  (if infix_first then Some (token\<lparr>text := slice_from t 2\<rparr>)
                   else if length t > 3 \<and> slice t 1 3 = infix \<and> is_consonant E (at t 0)
                           \<and> is_vowel E (at t 3)
                     then Some (token\<lparr>text := at t 0 @ slice_from t 3\<rparr>)
                   else if length t > 4 \<and> slice t 2 4 = infix \<and> is_consonant E (slice t 0 2)
                           \<and> is_vowel E (at t 4)
                     then Some (token\<lparr>text := slice t 0 2 @ slice_from t 4\<rparr>)
                   else if length t > 5 \<and> slice t 3 5 = infix \<and> is_consonant E (slice t 0 3)
                           \<and> is_vowel E (at t 5)
                     then Some (token\<lparr>text := slice t 0 3 @ slice_from t 5\<rparr>)
                   else None)
                in Inr (case stem of
                          None \<Rightarrow> []
                        | Some c \<Rightarrow> if text c \<noteq> [] then [c\<lparr>inf := Some infix\<rparr>] else []))
         else Inr [])"

definition stem_inf :: "env \<Rightarrow> stem_set \<Rightarrow> error + stem_set" where
  "stem_inf E tokens =
     bind (collect (\<lambda>token. collect (stem_inf_body E token) (INFIXES E)) (set_iter E tokens))
       (\<lambda>added. Inr (set_update [] added))"

subsection \<open>\<^verbatim>\<open>stem_vowel_loss\<close> and \<^verbatim>\<open>stem_suf\<close>\<close>

definition stem_vowel_loss_body :: "string list option \<Rightarrow> stem \<Rightarrow> char \<Rightarrow> stem list" where
  "stem_vowel_loss_body valid_words token vowel =
     (let t = text token
      in (if length t > 1 then
            (let stem = token\<lparr>text := t @ [vowel]\<rparr>
             in if is_true (is_valid stem valid_words)
                then [stem\<lparr>vowel_loss := Some [vowel]\<rparr>] else [])
          else [])
         @ (if length t > 2 then
              (let stem = token\<lparr>text := drop_last t 1 @ [vowel] @ at t (-1)\<rparr>
               in if is_true (is_valid stem valid_words)
                  then [stem\<lparr>vowel_loss := Some [vowel]\<rparr>] else [])
            else []))"

definition stem_vowel_loss :: "env \<Rightarrow> stem_set \<Rightarrow> string list option \<Rightarrow> stem_set" where
  "stem_vowel_loss E tokens valid_words =
     set_update []
       (concat (map (\<lambda>token. concat (map (stem_vowel_loss_body valid_words token) (VOWELS E)))
                  (set_iter E tokens)))"

definition stem_suf_phch_dr :: "string \<Rightarrow> stem \<Rightarrow> error + stem list" where
  "stem_suf_phch_dr suffix stem =
     (if suffix \<in> set [''in'', ''an''] \<and> at (text stem) (-1) = ''r'' then
        bind (replace_letter stem (-1) CHR ''d'')
          (\<lambda>c. Inr [c\<lparr>phoneme_change := Some ''suf: d/r''\<rparr>])
      else Inr [])"

definition stem_suf_phch :: "char \<Rightarrow> char \<Rightarrow> string \<Rightarrow> stem \<Rightarrow> error + stem list" where
  "stem_suf_phch old new tag stem =
     (if length (text stem) > 1 \<and> at (text stem) (-1) = [old] then
        bind (replace_letter stem (-1) new) (\<lambda>c. Inr [c\<lparr>phoneme_change := Some tag\<rparr>])
      else if length (text stem) > 2 \<and> at (text stem) (-2) = [old] then
        bind (replace_letter stem (-2) new) (\<lambda>c. Inr [c\<lparr>phoneme_change := Some tag\<rparr>])
      else Inr [])"

definition stem_suf_vwls_mtts :: "env \<Rightarrow> string list option \<Rightarrow> stem \<Rightarrow> error + stem list" where
  "stem_suf_vwls_mtts E valid_words stem =
     (if length (text stem) > 2 then
        bind (is_acceptable E (text stem)) (\<lambda>ok.
          if ok \<and> is_consonant E (take_last (text stem) 2) then
            bind (swap_letters stem (-1) (-2)) (\<lambda>swapped.
              let stems_vwls = stem_vowel_loss E [stem] valid_words;
                  stem_mtts = swapped\<lparr>metathesis := Some True\<rparr>
              in Inr (set_iter E stems_vwls
                      @ (if is_true (is_valid stem_mtts valid_words) then [stem_mtts]
                         else set_iter E (stem_vowel_loss E [stem_mtts] valid_words))))
          else Inr [])
      else Inr [])"

definition stem_suf_derive :: "env \<Rightarrow> string list option \<Rightarrow> string \<Rightarrow> stem \<Rightarrow> error + stem list" where
  "stem_suf_derive E valid_words suffix stem =
     bind (stem_suf_phch_dr suffix stem) (\<lambda>dr.
     bind (stem_suf_phch CHR ''u'' CHR ''o'' ''suf: o/u'' stem) (\<lambda>ou.
     bind (stem_suf_phch CHR ''i'' CHR ''e'' ''suf: e/i'' stem) (\<lambda>ei.
     bind (stem_suf_vwls_mtts E valid_words stem) (\<lambda>vm.
       Inr ([stem] @ dr @ ou @ ei @ vm)))))"

definition stem_suf_body :: "env \<Rightarrow> string list option \<Rightarrow> stem \<Rightarrow> string \<Rightarrow> error + stem list" where
  "stem_suf_body E valid_words token suffix =
     (let t = text token
      in if endswith t suffix \<and> length t > length suffix then
           (let stem = token\<lparr>text := slice t 0 (length t - length suffix)\<rparr>
            in if suffix \<in> set [''ng'', ''g'', [CHR 0x27, CHR ''t''], [CHR 0x27, CHR ''y'']] then
                 (if suffix = ''g'' \<and> at (text stem) (-1) \<noteq> ''n'' then Inr []
                  else if suffix \<in> set [[CHR 0x27, CHR ''t''], [CHR 0x27, CHR ''y'']]
                          \<and> \<not> is_vowel E (at (text stem) (-1)) then Inr []
                  else stem_suf_derive E valid_words suffix (stem\<lparr>contraction := Some suffix\<rparr>))
               else stem_suf_derive E valid_words suffix (stem\<lparr>suf := Some suffix\<rparr>))
         else Inr [])"

definition stem_suf :: "env \<Rightarrow> stem_set \<Rightarrow> string list option \<Rightarrow> error + stem_set" where
  "stem_suf E tokens valid_words =
     bind (collect (\<lambda>token. collect (stem_suf_body E valid_words token) (SUFFIXES E))
             (set_iter E tokens))
       (\<lambda>added. Inr (set_update [] added))"

subsection \<open>\<^verbatim>\<open>stem_rep\<close>\<close>

text \<open>
  The body keeps one variable \<^verbatim>\<open>stem\<close>. An \<^verbatim>\<open>if\<close>/\<^verbatim>\<open>elif\<close> chain (V-V, CV-CV, then the
  2-consonant cluster patterns for tokens longer than 5) assigns it first; a separate
  \<^verbatim>\<open>if len(token) > 6\<close> block (the 3-consonant cluster patterns) may assign it again.
\<close>

definition stem_rep_body :: "env \<Rightarrow> stem \<Rightarrow> stem list" where
  "stem_rep_body E token =
     (let t = text token;
          stem1 =
            (if length t > 2 \<and> at t 0 = at t 1 \<and> is_vowel E (slice t 0 2) then
               Some (token\<lparr>text := slice_from t 1, rep := Some (at t 0)\<rparr>)
             else if length t > 4 \<and> slice t 0 2 = slice t 2 4 \<and> is_consonant E (at t 0) then
               Some (token\<lparr>text := slice_from t 2, rep := Some (slice t 0 2)\<rparr>)
             else if length t > 5 then
               (if at t 0 = at t 2 \<and> at t 1 = at t 4 \<and> is_consonant E (at t 0)
                   \<and> is_vowel E (at t 1) then
                  Some (token\<lparr>text := slice_from t 2, rep := Some (slice t 0 2)\<rparr>)
                else if slice t 0 2 = slice t 2 4 \<and> is_consonant E (slice t 0 2)
                        \<and> is_vowel E (at t 4) then
                  Some (token\<lparr>text := slice_from t 2, rep := Some (slice t 0 2)\<rparr>)
                else if slice t 0 2 = slice t 3 5 \<and> is_consonant E (slice t 0 2)
                        \<and> is_vowel E (at t 2) then
                  Some (token\<lparr>text := slice_from t 3, rep := Some (slice t 0 3)\<rparr>)
                else None)
             else None);
          stem2 =
            (if length t > 6 then
               (if at t 0 = at t 2 \<and> at t 1 = at t 5 \<and> is_consonant E (at t 0)
                   \<and> is_vowel E (at t 1) then
                  Some (token\<lparr>text := slice_from t 2, rep := Some (slice t 0 2)\<rparr>)
                else if slice t 0 2 = slice t 2 4 \<and> is_consonant E (slice t 0 2)
                        \<and> is_vowel E (at t 5) then
                  Some (token\<lparr>text := slice_from t 2, rep := Some (slice t 0 2)\<rparr>)
                else if slice t 0 2 = slice t 3 5 \<and> at t 2 = at t 6
                        \<and> is_consonant E (slice t 0 2) \<and> is_vowel E (at t 6) then
                  Some (token\<lparr>text := slice_from t 3, rep := Some (slice t 0 3)\<rparr>)
                else if slice t 0 3 = slice t 3 6 \<and> is_consonant E (slice t 0 3)
                        \<and> is_vowel E (at t 6) then
                  Some (token\<lparr>text := slice_from t 3, rep := Some (slice t 0 3)\<rparr>)
                else if slice t 0 4 = slice t 4 8 \<and> is_consonant E (slice t 0 3)
                        \<and> is_vowel E (at t 3) then
                  Some (token\<lparr>text := slice_from t 4, rep := Some (slice t 0 4)\<rparr>)
                else stem1)
             else stem1)
      in case stem2 of None \<Rightarrow> [] | Some c \<Rightarrow> if text c \<noteq> [] then [c] else [])"

definition stem_rep :: "env \<Rightarrow> stem_set \<Rightarrow> stem_set" where
  "stem_rep E tokens = set_update [] (concat (map (stem_rep_body E) (set_iter E tokens)))"

subsection \<open>\<^verbatim>\<open>stem_dup\<close>\<close>

definition stem_dup_parts :: "stem \<Rightarrow> string \<Rightarrow> string \<Rightarrow> stem list" where
  "stem_dup_parts token f s =
     (let first = token\<lparr>text := f\<rparr>; second = token\<lparr>text := s\<rparr>
      in if length f > 1 \<and> length s > 1 then
           (if f = s then [first\<lparr>dup := Some f\<rparr>]
            else if length f > 2 \<and> length s > 4 \<and> startswith s f then [second\<lparr>dup := Some f\<rparr>]
            else if length f > 2 \<and> at f (-1) = ''u''
                      \<and> eq_text (replace_letter first (-1) CHR ''o'') s
                    \<or> at f (-2) = ''u'' \<and> eq_text (replace_letter first (-2) CHR ''o'') s then
              [second\<lparr>dup := Some s, phoneme_change := Some ''dup: o/u''\<rparr>]
            else if length f > 3 \<and> take_last f 2 \<in> set [''ng'', [CHR 0x27, CHR ''t'']] then
              (if drop_last f 2 = s then
                 [second\<lparr>dup := Some s, contraction := Some (take_last f 2)\<rparr>]
               else if at f (-3) = ''u'' \<and> drop_last f 3 @ ''o'' = s then
                 [second\<lparr>dup := Some s, contraction := Some (take_last f 2)\<rparr>]
               else if take_last f 2 = ''ng'' then
                 (if drop_last f 1 = s then
                    [second\<lparr>dup := Some s, contraction := Some (at f (-1))\<rparr>]
                  else if at f (-3) = ''u''
                          \<and> eq_text (replace_letter (first\<lparr>text := drop_last f 1\<rparr>) (-2) CHR ''o'') s
                  then [second\<lparr>dup := Some s, contraction := Some (at f (-1)),
                               phoneme_change := Some ''dup: o/u''\<rparr>]
                  else [])
               else [])
            else if length f > 2 \<and> at f (-1) = ''t'' then
              (if drop_last f 1 = s then
                 [second\<lparr>dup := Some s, contraction := Some (at f (-1))\<rparr>]
               else if at f (-2) = ''u'' \<and> drop_last f 2 @ ''o'' = s then
                 [second\<lparr>dup := Some s, contraction := Some (at f (-1)),
                          phoneme_change := Some ''dup: o/u''\<rparr>]
               else [])
            else [])
         else [])"

definition stem_dup_body :: "stem \<Rightarrow> stem list" where
  "stem_dup_body token =
     (let t = text token
      in if CHR ''-'' \<in> set t \<and> at t 0 \<noteq> ''-'' \<and> at t (-1) \<noteq> ''-'' then
           (case split CHR ''-'' t of
              [f, s] \<Rightarrow> stem_dup_parts token f s
            | _ \<Rightarrow> [])
         else [])"

definition stem_dup :: "env \<Rightarrow> stem_set \<Rightarrow> stem_set" where
  "stem_dup E tokens = set_update [] (concat (map stem_dup_body (set_iter E tokens)))"

subsection \<open>The cascade and the selection\<close>

datatype rule = F_dup | F_pre | F_rep | F_inf | F_suf

definition run_rule :: "env \<Rightarrow> rule \<Rightarrow> stem_set \<Rightarrow> string list option \<Rightarrow> error + stem_set" where
  "run_rule E f tokens valid_words =
     (case f of
        F_dup \<Rightarrow> Inr (stem_dup E tokens)
      | F_pre \<Rightarrow> stem_pre E tokens
      | F_rep \<Rightarrow> Inr (stem_rep E tokens)
      | F_inf \<Rightarrow> stem_inf E tokens
      | F_suf \<Rightarrow> stem_suf E tokens valid_words)"

fun apply_stemming :: "env \<Rightarrow> rule list \<Rightarrow> stem_set \<Rightarrow> string list option \<Rightarrow> error + stem_set" where
  "apply_stemming E [] tokens valid_words = Inr tokens"
| "apply_stemming E (f # functions) tokens valid_words =
     bind (run_rule E f tokens valid_words)
       (\<lambda>new. apply_stemming E functions (set_update tokens (set_iter E new)) valid_words)"

definition sort_candidates :: "stem list \<Rightarrow> stem list" where
  "sort_candidates candidates =
     sort_key (\<lambda>c. - int (count_affixes c + count_reduplication c)) candidates"

text \<open>
  The list comprehension \<^verbatim>\<open>[stem for stem in stems if is_valid(..) and is_acceptable(..)]\<close>:
  \<^verbatim>\<open>is_acceptable\<close> is called only on a candidate whose \<^verbatim>\<open>is_valid\<close> result is true.
\<close>

fun keep_candidates :: "env \<Rightarrow> string list option \<Rightarrow> stem list \<Rightarrow> error + stem list" where
  "keep_candidates E valid_words [] = Inr []"
| "keep_candidates E valid_words (stem # stems) =
     bind (if is_true (is_valid stem valid_words) then is_acceptable E (text stem)
           else Inr False)
       (\<lambda>keep. bind (keep_candidates E valid_words stems)
          (\<lambda>kept. Inr (if keep then stem # kept else kept)))"

definition get_stem_candidates :: "env \<Rightarrow> string \<Rightarrow> string list option \<Rightarrow> error + stem list" where
  "get_stem_candidates E token valid_words =
     (let token = Stem (lower (strip token))
      in bind (apply_stemming E [F_dup, F_pre, F_rep, F_inf, F_rep, F_suf, F_dup] [token] valid_words)
           (\<lambda>stems. bind (keep_candidates E valid_words (set_iter E stems))
              (\<lambda>candidates. Inr (if candidates \<noteq> [] then sort_candidates candidates
                                  else [token]))))"

text \<open>
  \<^verbatim>\<open>set(xs)\<close> and \<^verbatim>\<open>a & b\<close> on sets of candidates compare texts. The intersection keeps
  the members of one operand whose text occurs in the other; in \<^verbatim>\<open>get_stem\<close> both
  operands are parts of one list, so the choice of the operand does not show.
\<close>

definition set_inter :: "stem_set \<Rightarrow> stem_set \<Rightarrow> stem_set" where
  "set_inter A B = filter (\<lambda>c. text c \<in> set (map text B)) A"

definition get_stem :: "env \<Rightarrow> string \<Rightarrow> string list option \<Rightarrow> error + stem" where
  "get_stem E token valid_words =
     (let token = Stem (lower (strip token))
      in bind (get_stem_candidates E (text token) valid_words) (\<lambda>found.
           let candidates = filter (\<lambda>c. text c \<noteq> text token) found
           in if candidates = [] then Inr token
              else
                (let no_transformations = filter (\<lambda>c. count_transformations c = 0) candidates;
                     no_contractions = filter (\<lambda>c. \<not> truthy (contraction c)) candidates;
                     no_tran_cont =
                       set_iter E (set_inter (set_update [] no_transformations)
                                             (set_update [] no_contractions))
                 in if no_tran_cont \<noteq> [] then index (sort_candidates no_tran_cont) 0
                    else if no_contractions \<noteq> [] then index (sort_candidates no_contractions) 0
                    else if no_transformations \<noteq> [] then
                      index (sort_candidates no_transformations) 0
                    else index (sort_candidates candidates) 0)))"

text \<open>
  Resources for the concrete evaluations: the five vowels, the other letters of the
  alphabet as consonants, a few affixes that the test suite and the rule functions
  themselves mention, and insertion order as the iteration order of sets.
\<close>

definition env0 :: env where
  "env0 = \<lparr>VOWELS = ''aeiou'', CONSONANTS = ''bcdfghjklmnpqrstvwxyz'',
           PREFIXES = [''pa'', ''pam'', ''pan'', ''pang''], INFIXES = [''in'', ''um''],
           SUFFIXES = [''g'', ''an'', ''in'', ''ng'', ''han'', ''hin''],
           set_iter = (\<lambda>xs. xs)\<rparr>"

text \<open>The assumption on the iteration order of sets: each visit sees every member once.\<close>

definition iter_permutes :: "env \<Rightarrow> bool" where
  "iter_permutes E = (\<forall>xs. mset (set_iter E xs) = mset xs)"

subsection \<open>The patterns of \<^verbatim>\<open>stem_rep\<close> as the specification lists them\<close>

text \<open>
  The specification of \<^verbatim>\<open>stem_rep\<close> is a list of patterns in a fixed order, each a
  condition on the token and the candidate it yields, of which the first that matches
  is to determine the result. \<open>rep_patterns_two\<close> holds V-V, CV-CV and the three
  2-consonant cluster patterns (tokens longer than 5), \<open>rep_patterns_three\<close> the five
  3-consonant cluster patterns (tokens longer than 6); \<open>rep_cut token k\<close> is the candidate
  \<^verbatim>\<open>token[k:]\<close> with \<^verbatim>\<open>rep = token[:k]\<close>.
\<close>

fun first_match :: "(bool \<times> 'a) list \<Rightarrow> 'a option" where
  "first_match [] = None"
| "first_match ((condition, result) # patterns) =
     (if condition then Some result else first_match patterns)"

definition rep_cut :: "stem \<Rightarrow> nat \<Rightarrow> stem" where
  "rep_cut token k =
     token\<lparr>text := slice_from (text token) k, rep := Some (slice (text token) 0 k)\<rparr>"

definition rep_patterns_two :: "env \<Rightarrow> stem \<Rightarrow> (bool \<times> stem) list" where
  "rep_patterns_two E token =
     (let t = text token
      in [(length t > 2 \<and> at t 0 = at t 1 \<and> is_vowel E (slice t 0 2),
           token\<lparr>text := slice_from t 1, rep := Some (at t 0)\<rparr>),
          (length t > 4 \<and> slice t 0 2 = slice t 2 4 \<and> is_consonant E (at t 0),
           rep_cut token 2),
          (length t > 5 \<and> at t 0 = at t 2 \<and> at t 1 = at t 4 \<and> is_consonant E (at t 0)
             \<and> is_vowel E (at t 1),
           rep_cut token 2),
          (length t > 5 \<and> slice t 0 2 = slice t 2 4 \<and> is_consonant E (slice t 0 2)
             \<and> is_vowel E (at t 4),
           rep_cut token 2),
          (length t > 5 \<and> slice t 0 2 = slice t 3 5 \<and> is_consonant E (slice t 0 2)
             \<and> is_vowel E (at t 2),
           rep_cut token 3)])"

definition rep_patterns_three :: "env \<Rightarrow> stem \<Rightarrow> (bool \<times> stem) list" where
  "rep_patterns_three E token =
     (let t = text token
      in [(length t > 6 \<and> at t 0 = at t 2 \<and> at t 1 = at t 5 \<and> is_consonant E (at t 0)
             \<and> is_vowel E (at t 1),
           rep_cut token 2),
          (length t > 6 \<and> slice t 0 2 = slice t 2 4 \<and> is_consonant E (slice t 0 2)
             \<and> is_vowel E (at t 5),
           rep_cut token 2),
          (length t > 6 \<and> slice t 0 2 = slice t 3 5 \<and> at t 2 = at t 6
             \<and> is_consonant E (slice t 0 2) \<and> is_vowel E (at t 6),
           rep_cut token 3),
          (length t > 6 \<and> slice t 0 3 = slice t 3 6 \<and> is_consonant E (slice t 0 3)
             \<and> is_vowel E (at t 6),
           rep_cut token 3),
          (length t > 6 \<and> slice t 0 4 = slice t 4 8 \<and> is_consonant E (slice t 0 3)
             \<and> is_vowel E (at t 3),
           rep_cut token 4)])"

definition emit :: "stem option \<Rightarrow> stem list" where
  "emit r = (case r of None \<Rightarrow> [] | Some c \<Rightarrow> [c])"

subsection \<open>The selection as the specification states it\<close>

text \<open>
  The filter of \<^verbatim>\<open>get_stem_candidates\<close>: a candidate is kept when its \<^verbatim>\<open>is_valid\<close>
  result is true and it is acceptable.
\<close>

definition valid_acceptable :: "env \<Rightarrow> string list option \<Rightarrow> stem \<Rightarrow> bool" where
  "valid_acceptable E valid_words c =
     (is_true (is_valid c valid_words) \<and> is_acceptable E (text c) = Inr True)"

text \<open>
  The specification of the selector: the score of a candidate is the sum of the lengths
  of \<^verbatim>\<open>pre\<close>, \<^verbatim>\<open>inf\<close>, \<^verbatim>\<open>suf\<close>, \<^verbatim>\<open>rep\<close> and \<^verbatim>\<open>dup\<close> (0 when absent); a candidate has no
  transformation when none of \<^verbatim>\<open>phoneme_change\<close>, \<^verbatim>\<open>assimilation\<close>, \<^verbatim>\<open>vowel_loss\<close>,
  \<^verbatim>\<open>metathesis\<close> is set, and no contraction when \<^verbatim>\<open>contraction\<close> is not set; the
  preferred class of the surviving candidates is the first non-empty one of: those with
  neither, those with no contraction, those with no transformation, all of them.
\<close>

definition score :: "stem \<Rightarrow> nat" where
  "score c = len_or_empty (pre c) + len_or_empty (inf c) + len_or_empty (suf c)
             + len_or_empty (rep c) + len_or_empty (dup c)"

definition no_transformation :: "stem \<Rightarrow> bool" where
  "no_transformation c =
     (\<not> truthy (phoneme_change c) \<and> \<not> truthy (assimilation c) \<and> \<not> truthy (vowel_loss c)
      \<and> \<not> truthy_flag (metathesis c))"

definition no_contraction :: "stem \<Rightarrow> bool" where
  "no_contraction c = (\<not> truthy (contraction c))"

definition preferred_class :: "stem list \<Rightarrow> stem list" where
  "preferred_class C =
     (if filter (\<lambda>c. no_transformation c \<and> no_contraction c) C \<noteq> [] then
        filter (\<lambda>c. no_transformation c \<and> no_contraction c) C
      else if filter no_contraction C \<noteq> [] then filter no_contraction C
      else if filter no_transformation C \<noteq> [] then filter no_transformation C
      else C)"

text \<open>
  Annotation consistency, as the specification states it: at least one of the ten
  annotations of a candidate is set.
\<close>

definition annotated :: "stem \<Rightarrow> bool" where
  "annotated c =
     (pre c \<noteq> None \<or> inf c \<noteq> None \<or> suf c \<noteq> None \<or> rep c \<noteq> None \<or> dup c \<noteq> None
      \<or> contraction c \<noteq> None \<or> phoneme_change c \<noteq> None \<or> assimilation c \<noteq> None
      \<or> vowel_loss c \<noteq> None \<or> metathesis c \<noteq> None)"

subsection \<open>Tokens that begin outside the alphabet\<close>

text \<open>
  A character is a letter when \<^verbatim>\<open>is_vowel\<close> or \<^verbatim>\<open>is_consonant\<close> accepts it. The
  resources are taken to be made of letters: no prefix and no infix is empty, each
  begins with a letter, and \<^verbatim>\<open>r\<close> and \<^verbatim>\<open>u\<close> (which the rules compare with) are
  letters. A candidate starts outside the alphabet when it is not empty and its first
  character is not a letter.
\<close>

definition letter :: "env \<Rightarrow> char \<Rightarrow> bool" where
  "letter E c = (is_vowel E [c] \<or> is_consonant E [c])"

definition affixes_are_letters :: "env \<Rightarrow> bool" where
  "affixes_are_letters E =
     (list_all (\<lambda>p. p \<noteq> [] \<and> letter E (hd p)) (PREFIXES E)
      \<and> list_all (\<lambda>x. x \<noteq> [] \<and> letter E (hd x)) (INFIXES E)
      \<and> letter E CHR ''r'' \<and> letter E CHR ''u'')"

definition starts_outside :: "env \<Rightarrow> stem \<Rightarrow> bool" where
  "starts_outside E c = (text c \<noteq> [] \<and> \<not> letter E (hd (text c)))"

text \<open>The conditions under which \<^verbatim>\<open>stem_dup\<close> adds a candidate for the parts \<open>f\<close>, \<open>s\<close>.\<close>

definition dup_match :: "stem \<Rightarrow> string \<Rightarrow> string \<Rightarrow> bool" where
  "dup_match token f s =
     (length f > 1 \<and> length s > 1 \<and>
      (f = s \<or> startswith s f
       \<or> length f > 2 \<and> eq_text (replace_letter (token\<lparr>text := f\<rparr>) (-1) CHR ''o'') s
       \<or> at f (-2) = ''u'' \<and> eq_text (replace_letter (token\<lparr>text := f\<rparr>) (-2) CHR ''o'') s
       \<or> length f > 3 \<and> (drop_last f 2 = s \<or> drop_last f 3 @ ''o'' = s \<or> drop_last f 1 = s
            \<or> eq_text (replace_letter (token\<lparr>text := drop_last f 1\<rparr>) (-2) CHR ''o'') s)
       \<or> length f > 2 \<and> (drop_last f 1 = s \<or> drop_last f 2 @ ''o'' = s)))"

section \<open>Properties\<close>

lemma bind_Inr [simp]: "bind (Inr x) f = f x"
  by (simp add: bind_def)

lemma bind_Inl [simp]: "bind (Inl e) f = Inl e"
  by (simp add: bind_def)

text \<open>
  C9. \<^verbatim>\<open>is_valid(token, [])\<close> returns the token, exactly as \<^verbatim>\<open>is_valid(token, None)\<close>
  does: an empty word list that is present accepts every token.
\<close>

theorem is_valid_empty_lexicon:
  "is_valid token (Some []) = Some token \<and> is_valid token (Some []) = is_valid token None"
  by (simp add: is_valid_def)

subsection \<open>Reads and the exception\<close>

lemma error_unique: "(e::error) = IndexError"
  by (cases e) simp

lemma bind_eq_Inr: "bind m f = Inr y \<longleftrightarrow> (\<exists>x. m = Inr x \<and> f x = Inr y)"
  by (cases m) (simp_all add: bind_def)

lemma collect_raises: "x \<in> set xs \<Longrightarrow> body x = Inl e \<Longrightarrow> collect body xs = Inl IndexError"
proof (induction xs)
  case Nil
  then show ?case by simp
next
  case (Cons a xs)
  show ?case
  proof (cases "body a")
    case (Inl e')
    then show ?thesis by (simp add: error_unique [of e'])
  next
    case (Inr out)
    with Cons have "collect body xs = Inl IndexError" by auto
    with Inr show ?thesis by simp
  qed
qed

lemma iter_permutes_Nil [simp]: "iter_permutes E \<Longrightarrow> set_iter E [] = []"
  by (metis iter_permutes_def mset_zero_iff)

lemma iter_permutes_single [simp]: "iter_permutes E \<Longrightarrow> set_iter E [c] = [c]"
  by (metis iter_permutes_def mset_single_iff_right mset.simps(1) mset.simps(2))

lemma iter_permutes_env0: "iter_permutes env0"
  by (simp add: iter_permutes_def env0_def)

lemma index_Nil [simp]: "index [] i = Inl IndexError"
  by (simp add: index_def)

lemma index_Cons_0 [simp]: "index (c # cs) 0 = Inr c"
  by (simp add: index_def)

lemma index_0_nonempty: "s \<noteq> [] \<Longrightarrow> index s 0 = Inr (hd s)"
  by (cases s) simp_all

lemma index_in_range: "0 \<le> i \<Longrightarrow> nat i < length s \<Longrightarrow> index s i = Inr (s ! nat i)"
  by (auto simp: index_def Let_def)

lemma nat_neg_index: "i < 0 \<Longrightarrow> nat (- i) \<le> n \<Longrightarrow> nat (int n + i) = n - nat (- i)"
  by arith

lemma index_neg_in_range:
  "i < 0 \<Longrightarrow> nat (- i) \<le> length s \<Longrightarrow> index s i = Inr (s ! (length s - nat (- i)))"
  by (simp add: index_def Let_def nat_neg_index)

lemma index_last: "s \<noteq> [] \<Longrightarrow> index s (-1) = Inr (last s)"
  using index_neg_in_range [of "-1" s] by (cases s) (simp_all add: last_conv_nth)

lemma replace_letter_Inr:
  "i < 0 \<Longrightarrow> nat (- i) \<le> length (text c) \<Longrightarrow>
     replace_letter c i l = Inr (c\<lparr>text := (text c)[length (text c) - nat (- i) := l]\<rparr>)"
  by (simp add: replace_letter_def index_neg_in_range Let_def nat_neg_index)

lemma at_eq_single: "at s i = [c] \<longleftrightarrow> index s i = Inr c"
  by (cases "index s i") (simp_all add: at_def)

subsection \<open>The prefix rule reads past the end of a short stem\<close>

lemma normalize_par: "lower (strip ''par'') = ''par''" "lower (strip ''pa-'') = ''pa-''"
  by (simp_all add: lower_def strip_def isspace_def lower_char_def)

lemma pre_body_par: "stem_pre_body E (Stem ''par'') ''pa'' = Inl IndexError"
  by (simp add: stem_pre_body_def Stem_def startswith_def slice_from_def index_def
      stem_pre_phch_def Let_def)

lemma pre_body_pa_hyphen: "stem_pre_body E (Stem ''pa-'') ''pa'' = Inl IndexError"
  by (simp add: stem_pre_body_def Stem_def startswith_def slice_from_def index_def
      stem_pre_phch_def Let_def)

lemma cascade_raises:
  assumes "iter_permutes E" and "p \<in> set (PREFIXES E)"
    and "stem_pre_body E (Stem w) p = Inl e" and "stem_dup_body (Stem w) = []"
  shows "apply_stemming E (F_dup # F_pre # fs) [Stem w] vw = Inl IndexError"
proof -
  have d: "stem_dup E [Stem w] = []"
    using assms(1,4) by (simp add: stem_dup_def set_update_def)
  have "collect (stem_pre_body E (Stem w)) (PREFIXES E) = Inl IndexError"
    using assms(2,3) by (rule collect_raises)
  then have "stem_pre E [Stem w] = Inl IndexError"
    using assms(1) by (simp add: stem_pre_def)
  then show ?thesis
    using assms(1) by (simp add: run_rule_def d set_update_def)
qed

lemma cascade_raises_par:
  assumes "iter_permutes E" and "''pa'' \<in> set (PREFIXES E)"
  shows "apply_stemming E [F_dup, F_pre, F_rep, F_inf, F_rep, F_suf, F_dup] [Stem ''par''] vw
         = Inl IndexError"
proof -
  have "stem_dup_body (Stem ''par'') = []"
    by (simp add: stem_dup_body_def Stem_def)
  then show ?thesis
    using assms by (intro cascade_raises [where p = "''pa''"]) (simp_all add: pre_body_par)
qed

lemma cascade_raises_pa_hyphen:
  assumes "iter_permutes E" and "''pa'' \<in> set (PREFIXES E)"
  shows "apply_stemming E [F_dup, F_pre, F_rep, F_inf, F_rep, F_suf, F_dup] [Stem ''pa-''] vw
         = Inl IndexError"
proof -
  have "stem_dup_body (Stem ''pa-'') = []"
    by (simp add: stem_dup_body_def Stem_def at_def index_def)
  then show ?thesis
    using assms by (intro cascade_raises [where p = "''pa''"]) (simp_all add: pre_body_pa_hyphen)
qed

text \<open>
  C2. The claim is that \<^verbatim>\<open>get_stem\<close> never raises, also on a prefix followed only by
  \<^verbatim>\<open>r\<close> or only by \<^verbatim>\<open>-\<close>. With \<^verbatim>\<open>pa\<close> among the prefixes (the test suite stems
  \<^verbatim>\<open>parami\<close> to \<^verbatim>\<open>dami\<close> through it), \<^verbatim>\<open>get_stem("par")\<close> raises \<^verbatim>\<open>IndexError\<close> at
  \<^verbatim>\<open>stem[1]\<close> and \<^verbatim>\<open>get_stem("pa-")\<close> raises it at \<^verbatim>\<open>stem[0]\<close> after the hyphen is
  dropped, whatever the other resources and the lexicon are.
\<close>

theorem get_stem_raises:
  assumes "iter_permutes E" and "''pa'' \<in> set (PREFIXES E)"
  shows "get_stem E ''par'' vw = Inl IndexError \<and> get_stem E ''pa-'' vw = Inl IndexError"
  using cascade_raises_par [OF assms] cascade_raises_pa_hyphen [OF assms]
  by (simp add: get_stem_def get_stem_candidates_def normalize_par Stem_def Let_def)

theorem get_stem_raises_witness:
  "get_stem env0 ''par'' None = Inl IndexError \<and> get_stem env0 ''pa-'' None = Inl IndexError"
  using get_stem_raises [of env0 None] by (simp add: iter_permutes_def env0_def)

text \<open>
  C10. The claim is that \<^verbatim>\<open>get_stem_candidates\<close> returns a non-empty list for every
  input. On \<^verbatim>\<open>par\<close> and on \<^verbatim>\<open>pa-\<close> it returns nothing: the prefix rule raises
  \<^verbatim>\<open>IndexError\<close> before the candidates are filtered.
\<close>

theorem get_stem_candidates_raises:
  assumes "iter_permutes E" and "''pa'' \<in> set (PREFIXES E)"
  shows "get_stem_candidates E ''par'' vw = Inl IndexError
         \<and> get_stem_candidates E ''pa-'' vw = Inl IndexError"
  using cascade_raises_par [OF assms] cascade_raises_pa_hyphen [OF assms]
  by (simp add: get_stem_candidates_def normalize_par Let_def)

theorem get_stem_candidates_raises_witness:
  "get_stem_candidates env0 ''par'' (Some [''dami'']) = Inl IndexError
   \<and> get_stem_candidates env0 ''pa-'' (Some [''dami'']) = Inl IndexError"
  using get_stem_candidates_raises [of env0 "Some [''dami'']"]
  by (simp add: iter_permutes_def env0_def)

subsection \<open>The suffix rule\<close>

lemma replace_letter_ok: "index (text c) i = Inr x \<Longrightarrow> \<exists>c'. replace_letter c i l = Inr c'"
  by (simp add: replace_letter_def Let_def)

lemma stem_suf_phch_dr_ok: "\<exists>out. stem_suf_phch_dr suffix stem = Inr out"
proof (cases "suffix \<in> set [''in'', ''an''] \<and> at (text stem) (-1) = ''r''")
  case True
  then have "index (text stem) (-1) = Inr CHR ''r''" by (simp add: at_eq_single)
  from replace_letter_ok [OF this] obtain c' where "replace_letter stem (-1) CHR ''d'' = Inr c'"
    by blast
  with True show ?thesis by (simp add: stem_suf_phch_dr_def)
next
  case False
  then show ?thesis by (auto simp add: stem_suf_phch_dr_def)
qed

lemma stem_suf_phch_ok: "\<exists>out. stem_suf_phch old new tag stem = Inr out"
proof -
  have a: "at (text stem) i = [old] \<Longrightarrow> \<exists>c'. replace_letter stem i new = Inr c'" for i
    using replace_letter_ok [of stem i old new] by (simp add: at_eq_single)
  show ?thesis
    using a [of "-1"] a [of "-2"] by (auto simp add: stem_suf_phch_def)
qed

lemma is_acceptable_ok: "s \<noteq> [] \<Longrightarrow> \<exists>b. is_acceptable E s = Inr b"
  by (cases s) (auto simp add: is_acceptable_def)

lemma swap_letters_ok:
  assumes "length (text c) > 2"
  shows "\<exists>c'. swap_letters c (-1) (-2) = Inr c'"
proof -
  have "\<exists>x. index (text c) (-1) = Inr x" "\<exists>y. index (text c) (-2) = Inr y"
    using assms by (simp_all add: index_neg_in_range)
  then show ?thesis by (auto simp: swap_letters_def Let_def)
qed

lemma stem_suf_vwls_mtts_ok: "\<exists>out. stem_suf_vwls_mtts E vw stem = Inr out"
proof (cases "length (text stem) > 2")
  case True
  then have "text stem \<noteq> []" by auto
  from is_acceptable_ok [OF this] obtain b where b: "is_acceptable E (text stem) = Inr b" by blast
  from swap_letters_ok [OF True] obtain c' where c: "swap_letters stem (-1) (-2) = Inr c'" by blast
  show ?thesis using True b c by (simp add: stem_suf_vwls_mtts_def Let_def)
next
  case False
  then show ?thesis by (simp add: stem_suf_vwls_mtts_def)
qed

lemma stem_suf_derive_ok: "\<exists>rest. stem_suf_derive E vw suffix stem = Inr (stem # rest)"
proof -
  obtain a where a: "stem_suf_phch_dr suffix stem = Inr a" using stem_suf_phch_dr_ok by blast
  obtain b where b: "stem_suf_phch CHR ''u'' CHR ''o'' ''suf: o/u'' stem = Inr b"
    using stem_suf_phch_ok by blast
  obtain c where c: "stem_suf_phch CHR ''i'' CHR ''e'' ''suf: e/i'' stem = Inr c"
    using stem_suf_phch_ok by blast
  obtain d where d: "stem_suf_vwls_mtts E vw stem = Inr d" using stem_suf_vwls_mtts_ok by blast
  show ?thesis by (simp add: stem_suf_derive_def a b c d)
qed

text \<open>
  C3 (as amended). For a token that ends in \<^verbatim>\<open>g\<close> and is longer than one character,
  with \<open>s\<close> the token without its last character: when \<open>s\<close> ends in \<^verbatim>\<open>n\<close>, the body
  of \<^verbatim>\<open>stem_suf\<close> for the suffix \<^verbatim>\<open>g\<close> adds \<open>s\<close> tagged \<^verbatim>\<open>contraction = "g"\<close> (first,
  before the derived forms); when \<open>s\<close> does not end in \<^verbatim>\<open>n\<close>, it adds nothing at all
  for that suffix. The condition of the claim is the other way round.
\<close>

theorem stem_suf_g_contraction:
  assumes "endswith (text token) ''g''" and "length (text token) > 1"
  shows "(at (drop_last (text token) 1) (-1) = ''n'' \<longrightarrow>
            (\<exists>rest. stem_suf_body E vw token ''g''
                    = Inr (token\<lparr>text := drop_last (text token) 1, contraction := Some ''g''\<rparr> # rest)))
         \<and> (at (drop_last (text token) 1) (-1) \<noteq> ''n'' \<longrightarrow> stem_suf_body E vw token ''g'' = Inr [])"
proof -
  have s: "slice (text token) 0 (length (text token) - Suc 0) = drop_last (text token) (Suc 0)"
    by (simp add: slice_def drop_last_def)
  obtain rest where
    "stem_suf_derive E vw ''g'' (token\<lparr>text := drop_last (text token) 1, contraction := Some ''g''\<rparr>)
     = Inr (token\<lparr>text := drop_last (text token) 1, contraction := Some ''g''\<rparr> # rest)"
    using stem_suf_derive_ok by blast
  then show ?thesis
    using assms by (simp add: stem_suf_body_def Let_def s)
qed

theorem stem_suf_g_contraction_witness:
  "\<exists>rest. stem_suf_body env0 None (Stem ''ating'') ''g''
            = Inr (Stem ''atin''\<lparr>contraction := Some ''g''\<rparr> # rest)"
  using stem_suf_g_contraction [of "Stem ''ating''" env0 None]
  by (simp add: Stem_def endswith_def drop_last_def at_def index_def)

text \<open>
  C3 as stated fails both ways: \<^verbatim>\<open>ating\<close> gives \<open>s =\<close> \<^verbatim>\<open>atin\<close>, which ends in
  \<^verbatim>\<open>n\<close> and is added with the contraction (and with its e/i variant); \<^verbatim>\<open>bag\<close> gives
  \<open>s =\<close> \<^verbatim>\<open>ba\<close>, which does not end in \<^verbatim>\<open>n\<close>, and nothing is added.
\<close>

theorem stem_suf_g_counterexample:
  "at ''atin'' (-1) = ''n''
   \<and> stem_suf_body env0 None (Stem ''ating'') ''g''
       = Inr [Stem ''atin''\<lparr>contraction := Some ''g''\<rparr>,
              Stem ''aten''\<lparr>contraction := Some ''g'', phoneme_change := Some ''suf: e/i''\<rparr>]
   \<and> at ''ba'' (-1) \<noteq> ''n''
   \<and> stem_suf_body env0 None (Stem ''bag'') ''g'' = Inr []"
  by (simp add: stem_suf_body_def stem_suf_derive_def stem_suf_phch_dr_def stem_suf_phch_def
      stem_suf_vwls_mtts_def is_acceptable_def is_vowel_def is_consonant_def lower_char_def
      replace_letter_def Stem_def endswith_def slice_def take_last_def at_def index_def env0_def
      Let_def)

subsection \<open>Partial reduplication\<close>

lemma chain_two:
  "(if a1 then Some r1 else if a2 then Some r2
    else if l5 then (if b3 then Some r3 else if b4 then Some r4 else if b5 then Some r5 else None)
    else None)
   = first_match [(a1, r1), (a2, r2), (l5 \<and> b3, r3), (l5 \<and> b4, r4), (l5 \<and> b5, r5)]"
  by simp

lemma chain_three:
  "(if l6 then (if c1 then Some s1 else if c2 then Some s2 else if c3 then Some s3
                else if c4 then Some s4 else if c5 then Some s5 else x)
    else x)
   = (case first_match [(l6 \<and> c1, s1), (l6 \<and> c2, s2), (l6 \<and> c3, s3), (l6 \<and> c4, s4),
                        (l6 \<and> c5, s5)] of
        Some c \<Rightarrow> Some c | None \<Rightarrow> x)"
  by simp

lemma stem_rep_body_chain:
  "stem_rep_body E token =
     (case (case first_match (rep_patterns_three E token) of
              Some c \<Rightarrow> Some c | None \<Rightarrow> first_match (rep_patterns_two E token)) of
        None \<Rightarrow> [] | Some c \<Rightarrow> if text c \<noteq> [] then [c] else [])"
  by (simp only: stem_rep_body_def rep_patterns_two_def rep_patterns_three_def rep_cut_def
      Let_def chain_two chain_three)

lemma rep_patterns_two_nonempty:
  "first_match (rep_patterns_two E token) = Some c \<Longrightarrow> text c \<noteq> []"
  by (auto simp: rep_patterns_two_def rep_cut_def slice_from_def Let_def split: if_splits)

lemma rep_patterns_three_nonempty:
  "first_match (rep_patterns_three E token) = Some c \<Longrightarrow> text c \<noteq> []"
  by (auto simp: rep_patterns_three_def rep_cut_def slice_from_def Let_def split: if_splits)

text \<open>
  C5 (as amended). \<^verbatim>\<open>stem_rep\<close> adds at most one candidate for a token. When the token
  is longer than 6 and one of the five 3-consonant cluster patterns matches, the first of
  these that matches gives the candidate, also when V-V, CV-CV or a 2-consonant cluster
  pattern matched before; otherwise the first matching pattern among V-V, CV-CV and the
  2-consonant cluster patterns gives it.
\<close>

theorem stem_rep_body_first_match:
  "stem_rep_body E token =
     (case first_match (rep_patterns_three E token) of
        Some c \<Rightarrow> [c]
      | None \<Rightarrow> emit (first_match (rep_patterns_two E token)))
   \<and> length (stem_rep_body E token) \<le> 1"
proof -
  have eq: "stem_rep_body E token =
     (case first_match (rep_patterns_three E token) of
        Some c \<Rightarrow> [c]
      | None \<Rightarrow> emit (first_match (rep_patterns_two E token)))"
    by (auto simp: stem_rep_body_chain emit_def rep_patterns_two_nonempty
        rep_patterns_three_nonempty split: option.splits)
  then have "length (stem_rep_body E token) \<le> 1"
    by (simp add: emit_def split: option.splits)
  with eq show ?thesis by simp
qed

text \<open>
  C5 as stated, that the first matching pattern of the whole list always wins, fails on
  \<^verbatim>\<open>bbbbbba\<close>: CV-CV matches first and would give \<^verbatim>\<open>bbbba\<close>, but the later block
  (CCC-CCCV) assigns the result again and \<^verbatim>\<open>bbba\<close> is added.
\<close>

theorem stem_rep_body_counterexample:
  "first_match (rep_patterns_two env0 (Stem ''bbbbbba'') @ rep_patterns_three env0 (Stem ''bbbbbba''))
     = Some (Stem ''bbbba''\<lparr>rep := Some ''bb''\<rparr>)
   \<and> stem_rep_body env0 (Stem ''bbbbbba'') = [Stem ''bbba''\<lparr>rep := Some ''bbb''\<rparr>]"
  by code_simp

subsection \<open>Nasal assimilation in the prefix rule\<close>

lemma is_acceptable_True_length: "is_acceptable E s = Inr True \<Longrightarrow> length s \<ge> 2"
  by (cases s) (auto simp: is_acceptable_def split: if_splits)

lemma endswith_nonempty: "endswith p (c # cs) \<Longrightarrow> p \<noteq> []"
  by (auto simp: endswith_def)

lemma stem_pre_phch_ok:
  assumes "length (text stem) \<ge> 2" and "prefix \<noteq> []"
  shows "\<exists>out. stem_pre_phch E prefix stem = Inr out"
proof -
  have a: "index (text stem) 0 = Inr (hd (text stem))"
    using assms(1) by (intro index_0_nonempty) auto
  have b: "index prefix (-1) = Inr (last prefix)"
    using assms(2) by (rule index_last)
  have c: "index (text stem) 1 = Inr (text stem ! 1)"
    using assms(1) index_in_range [of 1 "text stem"] by simp
  show ?thesis by (simp add: stem_pre_phch_def a b c)
qed

lemma endswith_last: "endswith p x \<Longrightarrow> x \<noteq> [] \<Longrightarrow> last p = last x"
proof -
  assume a: "endswith p x" and b: "x \<noteq> []"
  then have "drop (length p - length x) p = x" by (simp add: endswith_def)
  moreover from this b have "length p - length x < length p" by (metis drop_eq_Nil not_le)
  ultimately show ?thesis by (metis last_drop)
qed

lemma endswith_m_not_ng: "endswith p ''m'' \<Longrightarrow> \<not> endswith p ''ng''"
  using endswith_last [of p "''m''"] endswith_last [of p "''ng''"] by auto

lemma stem_update_order: "c\<lparr>pre := p, text := x\<rparr> = c\<lparr>text := x, pre := p\<rparr>"
  by (cases c) simp

text \<open>
  C6 (as amended). When the matched prefix ends in \<^verbatim>\<open>m\<close>, and the stripped stem \<open>s\<close>
  (after a leading hyphen is dropped) is acceptable and begins with a vowel, the body of
  \<^verbatim>\<open>stem_pre\<close> does not raise and adds both \<^verbatim>\<open>"b" + s\<close> and \<^verbatim>\<open>"p" + s\<close>, tagged
  \<^verbatim>\<open>assimilation = "b/p: b"\<close> and \<^verbatim>\<open>"b/p: p"\<close> (and carrying \<^verbatim>\<open>pre\<close>). The source
  guards the whole assimilation block with
  \<^verbatim>\<open>is_acceptable(stem) and is_vowel(stem[0])\<close>.
\<close>

theorem stem_pre_bp_assimilation:
  assumes "startswith (text token) prefix" and "length (text token) > length prefix"
    and "endswith prefix ''m''"
    and "s = (let r = slice_from (text token) (length prefix)
              in if at r 0 = ''-'' then slice_from r 1 else r)"
    and "is_acceptable E s = Inr True" and "is_vowel E (at s 0)"
  shows "\<exists>out. stem_pre_body E token prefix = Inr out
           \<and> token\<lparr>text := ''b'' @ s, pre := Some prefix, assimilation := Some ''b/p: b''\<rparr> \<in> set out
           \<and> token\<lparr>text := ''p'' @ s, pre := Some prefix, assimilation := Some ''b/p: p''\<rparr> \<in> set out"
proof -
  define r where "r = slice_from (text token) (length prefix)"
  have r: "r \<noteq> []" using assms(2) by (simp add: r_def slice_from_def)
  then have r0: "index r 0 = Inr (hd r)" by (rule index_0_nonempty)
  have s: "s = (if hd r = CHR ''-'' then slice_from r 1 else r)"
    using assms(4) r0 by (simp add: r_def [symmetric] at_def)
  have len: "length s \<ge> 2" using assms(5) by (rule is_acceptable_True_length)
  then have s0: "index s 0 = Inr (hd s)" by (intro index_0_nonempty) auto
  have v: "is_vowel E [hd s]" using assms(6) s0 by (simp add: at_def)
  have p: "prefix \<noteq> []" using assms(3) by (rule endswith_nonempty)
  define stem where "stem = token\<lparr>text := s, pre := Some prefix\<rparr>"
  obtain ph where ph: "stem_pre_phch E prefix stem = Inr ph"
    using stem_pre_phch_ok [of stem prefix E] len p by (auto simp: stem_def)
  have as: "stem_pre_asml E prefix stem = Inr (stem_pre_letters ''bp'' ''b/p: '' CHR ''m'' stem E)"
    using assms(3,5) s0 v endswith_m_not_ng [OF assms(3)]
    by (simp add: stem_pre_asml_def stem_def)
  have body: "stem_pre_body E token prefix
              = Inr ([stem] @ ph @ stem_pre_letters ''bp'' ''b/p: '' CHR ''m'' stem E)"
    using assms(1,2) r0 ph as
    by (cases "hd r = CHR ''-''")
      (simp_all add: stem_pre_body_def Let_def r_def [symmetric] s stem_def stem_update_order)
  show ?thesis
    by (simp add: body stem_pre_letters_def stem_def Let_def)
qed

theorem stem_pre_bp_assimilation_witness:
  "\<exists>out. stem_pre_body env0 (Stem ''pamigay'') ''pam'' = Inr out
         \<and> Stem ''bigay''\<lparr>pre := Some ''pam'', assimilation := Some ''b/p: b''\<rparr> \<in> set out
         \<and> Stem ''pigay''\<lparr>pre := Some ''pam'', assimilation := Some ''b/p: p''\<rparr> \<in> set out"
proof -
  have a: "is_acceptable env0 ''igay'' = Inr True" by code_simp
  have b: "is_vowel env0 (at ''igay'' 0)" by code_simp
  show ?thesis
    using stem_pre_bp_assimilation [of "Stem ''pamigay''" "''pam''" "''igay''" env0] a b
    by (simp add: Stem_def startswith_def endswith_def slice_from_def at_def index_def)
qed

text \<open>
  C6 as stated fails, since without the guard's condition nothing is added for b/p: \<^verbatim>\<open>pambili\<close> with the prefix
  \<^verbatim>\<open>pam\<close> leaves \<^verbatim>\<open>bili\<close>, which begins with a consonant, and only \<^verbatim>\<open>bili\<close> itself is
  added.
\<close>

theorem stem_pre_bp_counterexample:
  "endswith ''pam'' ''m''
   \<and> stem_pre_body env0 (Stem ''pambili'') ''pam'' = Inr [Stem ''bili''\<lparr>pre := Some ''pam''\<rparr>]"
  by code_simp

subsection \<open>Normalising twice\<close>

lemma char_eq_code: "c = d \<longleftrightarrow> (of_char c :: nat) = of_char d"
  by simp

lemma isspace_code: "isspace c \<longleftrightarrow> (of_char c :: nat) \<in> {9, 10, 11, 12, 13, 28, 29, 30, 31, 32}"
  unfolding isspace_def by (simp add: char_eq_code [of c] del: of_char_eq_iff)

lemma isspace_lower_char: "isspace (lower_char c) = isspace c"
proof (cases "65 \<le> (of_char c :: nat) \<and> (of_char c :: nat) \<le> 90")
  case True
  then have "(of_char (lower_char c) :: nat) = of_char c + 32"
    by (simp add: lower_char_def Let_def)
  then show ?thesis using True by (simp add: isspace_code)
next
  case False
  then show ?thesis by (auto simp add: lower_char_def Let_def)
qed

lemma lower_char_idem: "lower_char (lower_char c) = lower_char c"
proof (cases "65 \<le> (of_char c :: nat) \<and> (of_char c :: nat) \<le> 90")
  case True
  then have "(of_char (lower_char c) :: nat) = of_char c + 32"
    by (simp add: lower_char_def Let_def)
  then show ?thesis using True by (simp add: lower_char_def [of "lower_char c"] Let_def)
next
  case False
  then show ?thesis by (auto simp add: lower_char_def Let_def)
qed

lemma strip_lower: "strip (lower s) = lower (strip s)"
proof -
  have "isspace \<circ> lower_char = isspace" by (simp add: fun_eq_iff isspace_lower_char)
  then show ?thesis
    by (simp add: strip_def lower_def dropWhile_map rev_map)
qed

lemma dropWhile_unchanged: "xs = [] \<or> \<not> P (hd xs) \<Longrightarrow> dropWhile P xs = xs"
  by (cases xs) auto

lemma strip_idem: "strip (strip s) = strip s"
proof -
  define t where "t = dropWhile isspace s"
  define u where "u = dropWhile isspace (rev t)"
  have t: "t = [] \<or> \<not> isspace (hd t)" unfolding t_def by (metis hd_dropWhile)
  have u: "u = [] \<or> \<not> isspace (hd u)" unfolding u_def by (metis hd_dropWhile)
  have s: "strip s = rev u" by (simp add: strip_def t_def u_def)
  have "set u \<subseteq> set t" unfolding u_def using set_dropWhileD by fastforce
  have "rev u = [] \<or> \<not> isspace (hd (rev u))"
  proof (cases "u = []")
    case True
    then show ?thesis by simp
  next
    case False
    obtain k where "rev t = k @ u" unfolding u_def by (metis takeWhile_dropWhile_id)
    then have "t = rev u @ rev k" by (metis rev_append rev_rev_ident)
    then have "hd (rev u) = hd t" using False by simp
    moreover have "t \<noteq> []" using \<open>t = rev u @ rev k\<close> False by simp
    ultimately show ?thesis using t by simp
  qed
  then have "dropWhile isspace (rev u) = rev u" by (rule dropWhile_unchanged)
  moreover have "dropWhile isspace u = u" using u by (rule dropWhile_unchanged)
  ultimately show ?thesis by (simp add: s strip_def [of "rev u"])
qed

lemma lower_idem: "lower (lower s) = lower s"
  by (simp add: lower_def lower_char_idem)

lemma normalize_idem: "lower (strip (lower (strip s))) = lower (strip s)"
  by (simp only: strip_lower strip_idem lower_idem)

lemma get_stem_candidates_normalised:
  "get_stem_candidates E (lower (strip w)) vw = get_stem_candidates E w vw"
  by (simp add: get_stem_candidates_def normalize_idem)

subsection \<open>Sets of candidates and the candidate list\<close>

lemma set_add_distinct: "distinct (map text S) \<Longrightarrow> distinct (map text (set_add S c))"
  by (auto simp: set_add_def)

lemma set_update_distinct: "distinct (map text S) \<Longrightarrow> distinct (map text (set_update S cs))"
  unfolding set_update_def by (induction cs arbitrary: S) (simp_all add: set_add_distinct)

lemma set_add_subset: "set (set_add S c) \<subseteq> insert c (set S)"
  by (auto simp: set_add_def)

lemma set_update_subset: "set (set_update S cs) \<subseteq> set S \<union> set cs"
  unfolding set_update_def
proof (induction cs arbitrary: S)
  case Nil
  then show ?case by simp
next
  case (Cons c cs)
  show ?case using Cons.IH [of "set_add S c"] set_add_subset [of S c] by auto
qed

lemma set_update_id: "distinct (map text (S @ cs)) \<Longrightarrow> set_update S cs = S @ cs"
  unfolding set_update_def
proof (induction cs arbitrary: S)
  case Nil
  then show ?case by simp
next
  case (Cons c cs)
  then have "set_add S c = S @ [c]" by (auto simp: set_add_def)
  moreover have "distinct (map text ((S @ [c]) @ cs))" using Cons.prems by simp
  ultimately show ?case using Cons.IH [of "S @ [c]"] by simp
qed

lemma iter_set: "iter_permutes E \<Longrightarrow> set (set_iter E xs) = set xs"
  by (metis iter_permutes_def set_mset_mset)

lemma iter_distinct:
  assumes "iter_permutes E" and "distinct (map text xs)"
  shows "distinct (map text (set_iter E xs))"
proof -
  have "mset (map text (set_iter E xs)) = mset (map text xs)"
    using assms(1) by (simp add: iter_permutes_def)
  then show ?thesis using assms(2) by (metis mset_eq_imp_distinct_iff)
qed

lemma apply_stemming_distinct:
  "distinct (map text S) \<Longrightarrow> apply_stemming E fs S vw = Inr S' \<Longrightarrow> distinct (map text S')"
proof (induction fs arbitrary: S)
  case Nil
  then show ?case by simp
next
  case (Cons f fs)
  from Cons.prems(2) obtain new where
    "apply_stemming E fs (set_update S (set_iter E new)) vw = Inr S'"
    by (auto simp: bind_eq_Inr)
  moreover have "distinct (map text (set_update S (set_iter E new)))"
    using Cons.prems(1) by (rule set_update_distinct)
  ultimately show ?case using Cons.IH by blast
qed

lemma keep_candidates_filter:
  "keep_candidates E vw xs = Inr ks \<Longrightarrow> ks = filter (valid_acceptable E vw) xs"
proof (induction xs arbitrary: ks)
  case Nil
  then show ?case by simp
next
  case (Cons x xs)
  from Cons.prems obtain keep kept where
    k: "(if is_true (is_valid x vw) then is_acceptable E (text x) else Inr False) = Inr keep"
    and r: "keep_candidates E vw xs = Inr kept"
    and ks: "ks = (if keep then x # kept else kept)"
    by (auto simp: bind_eq_Inr)
  have "keep = valid_acceptable E vw x"
    using k by (auto simp: valid_acceptable_def split: if_splits)
  with Cons.IH [OF r] ks show ?case by simp
qed

lemma sort_candidates_mset: "mset (sort_candidates xs) = mset xs"
  by (simp add: sort_candidates_def)

lemma sort_candidates_set: "set (sort_candidates xs) = set xs"
  by (simp add: sort_candidates_def)

lemma sort_candidates_distinct:
  "distinct (map text xs) \<Longrightarrow> distinct (map text (sort_candidates xs))"
proof -
  have "mset (map text (sort_candidates xs)) = mset (map text xs)"
    by (simp add: sort_candidates_mset)
  then show "distinct (map text xs) \<Longrightarrow> ?thesis" by (metis mset_eq_imp_distinct_iff)
qed

lemma get_stem_candidates_result:
  assumes "iter_permutes E" and "get_stem_candidates E w vw = Inr found"
  shows "found \<noteq> [] \<and> distinct (map text found)
         \<and> (found = [Stem (lower (strip w))] \<or> (\<forall>c \<in> set found. valid_acceptable E vw c))"
proof -
  define token where "token = Stem (lower (strip w))"
  from assms(2) obtain stems kept where
    a: "apply_stemming E [F_dup, F_pre, F_rep, F_inf, F_rep, F_suf, F_dup] [token] vw = Inr stems"
    and k: "keep_candidates E vw (set_iter E stems) = Inr kept"
    and f: "found = (if kept \<noteq> [] then sort_candidates kept else [token])"
    by (auto simp: get_stem_candidates_def Let_def bind_eq_Inr token_def)
  have "distinct (map text stems)" using a by (intro apply_stemming_distinct [OF _ a]) simp
  then have d: "distinct (map text (set_iter E stems))" using assms(1) by (intro iter_distinct)
  have kf: "kept = filter (valid_acceptable E vw) (set_iter E stems)"
    using k by (rule keep_candidates_filter)
  have dk: "distinct (map text kept)" unfolding kf using d by (simp add: distinct_map_filter)
  show ?thesis
  proof (cases "kept = []")
    case True
    then show ?thesis using f by (simp add: token_def)
  next
    case False
    then have "found = sort_candidates kept" using f by simp
    moreover have "sort_candidates kept \<noteq> []"
      using False sort_candidates_set [of kept] by auto
    moreover have "\<forall>c \<in> set kept. valid_acceptable E vw c" using kf by simp
    ultimately show ?thesis
      using dk by (simp add: sort_candidates_distinct sort_candidates_set)
  qed
qed

subsection \<open>The selection\<close>

lemma count_transformations_0: "count_transformations c = 0 \<longleftrightarrow> no_transformation c"
  by (simp add: count_transformations_def no_transformation_def)

lemma sort_candidates_first:
  assumes "xs \<noteq> []"
  shows "\<exists>r. index (sort_candidates xs) 0 = Inr r \<and> r \<in> set xs
             \<and> list_all (\<lambda>c. score c \<le> score r) xs"
proof -
  define key where "key = (\<lambda>c. - int (count_affixes c + count_reduplication c))"
  define ys where "ys = sort_key key xs"
  have ys: "sort_candidates xs = ys" by (simp add: sort_candidates_def ys_def key_def)
  have ne: "ys \<noteq> []" using assms by (metis ys_def set_sort set_empty)
  then obtain r rest where r: "ys = r # rest" by (cases ys) auto
  have "sorted (map key ys)" by (simp add: ys_def)
  then have "\<forall>c \<in> set ys. key r \<le> key c" by (auto simp: r)
  moreover have "key c = - int (score c)" for c
    by (simp add: key_def score_def count_affixes_def count_reduplication_def)
  ultimately have "\<forall>c \<in> set xs. score c \<le> score r"
    by (simp add: ys_def)
  moreover have "r \<in> set xs" using r by (metis ys_def set_sort list.set_intros(1))
  ultimately show ?thesis by (auto simp: ys r list_all_iff)
qed

lemma set_inter_filters:
  assumes "distinct (map text C)"
  shows "set (set_inter (set_update [] (filter P C)) (set_update [] (filter Q C)))
         = set (filter (\<lambda>c. P c \<and> Q c) C)"
proof -
  have inj: "inj_on text (set C)" using assms by (simp add: distinct_map)
  have p: "set_update [] (filter P C) = filter P C"
    using assms by (intro set_update_id [of "[]", simplified]) (simp add: distinct_map_filter)
  have q: "set_update [] (filter Q C) = filter Q C"
    using assms by (intro set_update_id [of "[]", simplified]) (simp add: distinct_map_filter)
  show ?thesis
    unfolding p q set_inter_def using inj by (auto simp: inj_on_def)
qed

lemma get_stem_selects:
  assumes "iter_permutes E" and "get_stem_candidates E (lower (strip w)) vw = Inr found"
  shows "\<exists>r. get_stem E w vw = Inr r
           \<and> (if filter (\<lambda>c. text c \<noteq> lower (strip w)) found = []
               then r = Stem (lower (strip w))
               else r \<in> set (preferred_class (filter (\<lambda>c. text c \<noteq> lower (strip w)) found))
                    \<and> list_all (\<lambda>c. score c \<le> score r)
                         (preferred_class (filter (\<lambda>c. text c \<noteq> lower (strip w)) found)))"
proof -
  define C where "C = filter (\<lambda>c. text c \<noteq> lower (strip w)) found"
  have d: "distinct (map text C)"
    using get_stem_candidates_result [OF assms] by (simp add: C_def distinct_map_filter)
  define TK where
    "TK = set_iter E (set_inter (set_update [] (filter (\<lambda>c. count_transformations c = 0) C))
                                (set_update [] (filter (\<lambda>c. \<not> truthy (contraction c)) C)))"
  have tk: "set TK = set (filter (\<lambda>c. no_transformation c \<and> no_contraction c) C)"
    unfolding TK_def iter_set [OF assms(1)] set_inter_filters [OF d]
    by (simp add: count_transformations_0 no_contraction_def)
  have tk_ne: "TK \<noteq> [] \<longleftrightarrow> filter (\<lambda>c. no_transformation c \<and> no_contraction c) C \<noteq> []"
    using tk by (metis set_empty)
  define NT where "NT = filter (\<lambda>c. count_transformations c = 0) C"
  define NC where "NC = filter (\<lambda>c. \<not> truthy (contraction c)) C"
  have nt: "NT = filter no_transformation C"
    by (simp add: NT_def count_transformations_0)
  have nc: "NC = filter no_contraction C"
    by (simp add: NC_def no_contraction_def [abs_def])
  have text_Stem: "text (Stem s) = s" for s by (simp add: Stem_def)
  have g: "get_stem E w vw =
      (if C = [] then Inr (Stem (lower (strip w)))
       else if TK \<noteq> [] then index (sort_candidates TK) 0
       else if NC \<noteq> [] then index (sort_candidates NC) 0
       else if NT \<noteq> [] then index (sort_candidates NT) 0
       else index (sort_candidates C) 0)"
    unfolding get_stem_def Let_def text_Stem assms(2) bind_Inr TK_def NT_def NC_def C_def ..
  show ?thesis
  proof (cases "C = []")
    case True
    then show ?thesis using g by (simp add: C_def)
  next
    case False
    define K where "K = preferred_class C"
    define K' where "K' = (if TK \<noteq> [] then TK else K)"
    have K'set: "set K' = set K" and K'ne: "K' \<noteq> []"
      using False tk tk_ne by (auto simp: K'_def K_def preferred_class_def)
    have "get_stem E w vw = index (sort_candidates K') 0"
      using False g tk_ne by (auto simp: K'_def K_def preferred_class_def nt nc)
    moreover obtain r where "index (sort_candidates K') 0 = Inr r" "r \<in> set K'"
      "list_all (\<lambda>c. score c \<le> score r) K'"
      using sort_candidates_first [OF K'ne] by blast
    ultimately show ?thesis
      using False K'set by (auto simp: C_def [symmetric] K_def list_all_iff)
  qed
qed

lemma preferred_class_subset: "set (preferred_class C) \<subseteq> set C"
  by (auto simp: preferred_class_def)

lemma valid_acceptable_in_lexicon:
  "valid_acceptable E (Some L) c \<Longrightarrow> L \<noteq> [] \<Longrightarrow> text c \<in> set L"
  by (auto simp: valid_acceptable_def is_valid_def is_true_def split: if_splits)

text \<open>
  C1. Whenever \<^verbatim>\<open>get_stem_candidates\<close> returns the list \<open>found\<close>, \<^verbatim>\<open>get_stem\<close> returns a
  candidate \<open>r\<close>: the normalised token itself when no candidate other than the token is
  left; otherwise a member of the preferred class of the surviving candidates (no
  transformation and no contraction first, then no contraction, then no transformation,
  then all survivors) whose score is maximal in that class.
\<close>

theorem get_stem_prefers_and_maximises:
  assumes "iter_permutes E" and "get_stem_candidates E w vw = Inr found"
  shows "\<exists>r. get_stem E w vw = Inr r
           \<and> (if filter (\<lambda>c. text c \<noteq> lower (strip w)) found = []
               then r = Stem (lower (strip w))
               else r \<in> set (preferred_class (filter (\<lambda>c. text c \<noteq> lower (strip w)) found))
                    \<and> (\<forall>c \<in> set (preferred_class (filter (\<lambda>c. text c \<noteq> lower (strip w)) found)).
                          score c \<le> score r))"
proof -
  have "get_stem_candidates E (lower (strip w)) vw = Inr found"
    using assms(2) by (simp add: get_stem_candidates_normalised)
  from get_stem_selects [OF assms(1) this] show ?thesis
    by (auto simp: list_all_iff split: if_splits)
qed

theorem get_stem_prefers_and_maximises_witness:
  "\<exists>r. get_stem env0 ''pamigay'' (Some [''bigay'', ''migay'', ''pigay'', ''gay'']) = Inr r
       \<and> r \<in> set (preferred_class
                     [Stem ''bigay''\<lparr>pre := Some ''pam'', assimilation := Some ''b/p: b''\<rparr>,
                      Stem ''pigay''\<lparr>pre := Some ''pam'', assimilation := Some ''b/p: p''\<rparr>,
                      Stem ''migay''\<lparr>pre := Some ''pa''\<rparr>])
       \<and> list_all (\<lambda>c. score c \<le> score r)
            (preferred_class
               [Stem ''bigay''\<lparr>pre := Some ''pam'', assimilation := Some ''b/p: b''\<rparr>,
                Stem ''pigay''\<lparr>pre := Some ''pam'', assimilation := Some ''b/p: p''\<rparr>,
                Stem ''migay''\<lparr>pre := Some ''pa''\<rparr>])"
proof -
  have n: "lower (strip ''pamigay'') = ''pamigay''" by code_simp
  have a: "get_stem_candidates env0 ''pamigay''
             (Some [''bigay'', ''migay'', ''pigay'', ''gay''])
           = Inr [Stem ''bigay''\<lparr>pre := Some ''pam'', assimilation := Some ''b/p: b''\<rparr>,
                  Stem ''pigay''\<lparr>pre := Some ''pam'', assimilation := Some ''b/p: p''\<rparr>,
                  Stem ''migay''\<lparr>pre := Some ''pa''\<rparr>]"
    by code_simp
  show ?thesis
    using get_stem_prefers_and_maximises [OF iter_permutes_env0 a]
    by (simp add: n Stem_def list_all_iff)
qed

text \<open>
  C4 (as amended). For a word \<open>w\<close> of the lexicon (normalised, as the words of the
  lexicon are), whenever the cascade returns the candidate list \<open>found\<close>, \<^verbatim>\<open>get_stem\<close>
  returns a member of the lexicon, and it returns \<open>w\<close> itself when \<open>found\<close> holds no
  candidate other than \<open>w\<close>. The original token is filtered out before the selection, so
  another valid and acceptable candidate is preferred to \<open>w\<close>.
\<close>

theorem get_stem_of_lexicon_word:
  assumes "iter_permutes E" and "w \<in> set L" and "lower (strip w) = w"
    and "get_stem_candidates E w (Some L) = Inr found"
  shows "\<exists>r. get_stem E w (Some L) = Inr r \<and> text r \<in> set L
           \<and> ((\<forall>c \<in> set found. text c = w) \<longrightarrow> r = Stem w)"
proof -
  define C where "C = filter (\<lambda>c. text c \<noteq> w) found"
  have "get_stem_candidates E (lower (strip w)) (Some L) = Inr found"
    using assms(3,4) by simp
  from get_stem_selects [OF assms(1) this, unfolded assms(3)] obtain r where
    g: "get_stem E w (Some L) = Inr r"
    and r: "if C = [] then r = Stem w
            else r \<in> set (preferred_class C) \<and> list_all (\<lambda>c. score c \<le> score r) (preferred_class C)"
    by (auto simp: C_def)
  have res: "found = [Stem w] \<or> (\<forall>c \<in> set found. valid_acceptable E (Some L) c)"
    using get_stem_candidates_result [OF assms(1,4)] assms(3) by simp
  have "text r \<in> set L"
  proof (cases "C = []")
    case True
    then show ?thesis using r assms(2) by (simp add: Stem_def)
  next
    case False
    then have "r \<in> set C" using r preferred_class_subset by auto
    then have rf: "r \<in> set found" "text r \<noteq> w" by (auto simp: C_def)
    then have "found \<noteq> [Stem w]" by (auto simp: Stem_def)
    then have "valid_acceptable E (Some L) r" using res rf by blast
    then show ?thesis using assms(2) by (intro valid_acceptable_in_lexicon [of E]) auto
  qed
  moreover have "(\<forall>c \<in> set found. text c = w) \<longrightarrow> r = Stem w"
    using r by (auto simp: C_def filter_empty_conv)
  ultimately show ?thesis using g by blast
qed

theorem get_stem_of_lexicon_word_witness:
  "\<exists>r. get_stem env0 ''alis'' (Some [''aalis'', ''alis'']) = Inr r \<and> text r \<in> set [''aalis'', ''alis'']
       \<and> r = Stem ''alis''"
proof -
  have a: "get_stem_candidates env0 ''alis'' (Some [''aalis'', ''alis'']) = Inr [Stem ''alis'']"
    by code_simp
  have b: "lower (strip ''alis'') = ''alis''" by code_simp
  show ?thesis
    using get_stem_of_lexicon_word [OF iter_permutes_env0 _ b a] by (simp add: Stem_def)
qed

text \<open>
  C4 as stated (idempotence) fails: with both \<^verbatim>\<open>aalis\<close> and \<^verbatim>\<open>alis\<close> in the lexicon, the stem
  of \<^verbatim>\<open>aalis\<close> is \<^verbatim>\<open>alis\<close> (partial reduplication undone), not \<^verbatim>\<open>aalis\<close>.
\<close>

theorem get_stem_not_idempotent:
  "''aalis'' \<in> set [''aalis'', ''alis'']
   \<and> get_stem env0 ''aalis'' (Some [''aalis'', ''alis'']) = Inr (Stem ''alis''\<lparr>rep := Some ''a''\<rparr>)
   \<and> text (Stem ''alis''\<lparr>rep := Some ''a''\<rparr>) \<noteq> ''aalis''"
  by code_simp

subsection \<open>Every rule records an annotation\<close>

lemma collect_all:
  assumes "collect body xs = Inr out"
    and "\<And>x added c. x \<in> set xs \<Longrightarrow> body x = Inr added \<Longrightarrow> c \<in> set added \<Longrightarrow> P c"
  shows "\<forall>c \<in> set out. P c"
  using assms
proof (induction xs arbitrary: out)
  case Nil
  then show ?case by simp
next
  case (Cons x xs)
  from Cons.prems(1) obtain added rest where
    a: "body x = Inr added" and r: "collect body xs = Inr rest" and o: "out = added @ rest"
    by (auto simp: bind_eq_Inr)
  have "\<forall>c \<in> set added. P c" using Cons.prems(2) [of x added] a by simp
  moreover have "\<forall>c \<in> set rest. P c"
  proof (rule Cons.IH [OF r])
    fix y added' c
    assume "y \<in> set xs" "body y = Inr added'" "c \<in> set added'"
    then show "P c" using Cons.prems(2) [of y added' c] by simp
  qed
  ultimately show ?case using o by auto
qed

lemma stem_pre_phch_pre: "stem_pre_phch E prefix stem = Inr out \<Longrightarrow> \<forall>c \<in> set out. pre c = pre stem"
  by (auto simp: stem_pre_phch_def bind_eq_Inr split: if_splits)

lemma stem_pre_ng_pre: "stem_pre_ng E stem = Inr out \<Longrightarrow> \<forall>c \<in> set out. pre c = pre stem"
  by (auto simp: stem_pre_ng_def bind_eq_Inr Let_def split: if_splits)

lemma stem_pre_letters_pre: "\<forall>c \<in> set (stem_pre_letters letters tag nasal stem E). pre c = pre stem"
  by (auto simp: stem_pre_letters_def Let_def split: if_splits)

lemma stem_pre_asml_pre:
  assumes "stem_pre_asml E prefix stem = Inr out"
  shows "\<forall>c \<in> set out. pre c = pre stem"
proof -
  from assms have
    "out = [] \<or> stem_pre_ng E stem = Inr out
     \<or> (\<exists>letters tag nasal. out = stem_pre_letters letters tag nasal stem E)"
    by (auto simp: stem_pre_asml_def bind_eq_Inr split: if_splits)
  then show ?thesis using stem_pre_ng_pre stem_pre_letters_pre by fastforce
qed

lemma stem_pre_body_cases:
  assumes "stem_pre_body E token prefix = Inr out"
  shows "out = []
         \<or> (\<exists>stem phch asml. pre stem = Some prefix \<and> stem_pre_phch E prefix stem = Inr phch
               \<and> stem_pre_asml E prefix stem = Inr asml \<and> out = stem # phch @ asml)"
proof (cases "startswith (text token) prefix \<and> length (text token) > length prefix")
  case True
  define stripped where
    "stripped = token\<lparr>text := slice_from (text token) (length prefix), pre := Some prefix\<rparr>"
  from assms True obtain c0 where
    b: "bind (stem_pre_phch E prefix
               (if c0 = CHR ''-'' then stripped\<lparr>text := slice_from (text stripped) 1\<rparr> else stripped))
          (\<lambda>phch. bind (stem_pre_asml E prefix
               (if c0 = CHR ''-'' then stripped\<lparr>text := slice_from (text stripped) 1\<rparr> else stripped))
             (\<lambda>asml. Inr ([if c0 = CHR ''-'' then stripped\<lparr>text := slice_from (text stripped) 1\<rparr>
                             else stripped] @ phch @ asml))) = Inr out"
    unfolding stem_pre_body_def Let_def stripped_def [symmetric] by (auto simp: bind_eq_Inr)
  define stem where
    "stem = (if c0 = CHR ''-'' then stripped\<lparr>text := slice_from (text stripped) 1\<rparr> else stripped)"
  have "pre stem = Some prefix" by (simp add: stem_def stripped_def)
  moreover from b obtain phch asml where
    "stem_pre_phch E prefix stem = Inr phch" "stem_pre_asml E prefix stem = Inr asml"
    "out = stem # phch @ asml"
    unfolding stem_def [symmetric] by (auto simp: bind_eq_Inr)
  ultimately show ?thesis by blast
next
  case False
  then show ?thesis using assms by (auto simp: stem_pre_body_def)
qed

lemma stem_pre_body_pre:
  assumes "stem_pre_body E token prefix = Inr out"
  shows "\<forall>c \<in> set out. pre c = Some prefix"
  using stem_pre_body_cases [OF assms] stem_pre_phch_pre stem_pre_asml_pre by fastforce

lemma stem_inf_body_inf:
  assumes "stem_inf_body E token infix = Inr out"
  shows "\<forall>c \<in> set out. inf c = Some infix"
proof (cases "length (text token) > length infix + 1")
  case True
  with assms obtain stem where
    "out = (case stem of None \<Rightarrow> [] | Some c \<Rightarrow> if text c \<noteq> [] then [c\<lparr>inf := Some infix\<rparr>] else [])"
    unfolding stem_inf_body_def Let_def by (auto simp: bind_eq_Inr)
  then show ?thesis by (auto split: option.splits)
next
  case False
  then show ?thesis using assms by (simp add: stem_inf_body_def Let_def)
qed

lemma stem_vowel_loss_body_annotated:
  "\<forall>c \<in> set (stem_vowel_loss_body vw token vowel). vowel_loss c = Some [vowel]"
  by (auto simp add: stem_vowel_loss_body_def Let_def)

lemma stem_vowel_loss_annotated: "\<forall>c \<in> set (stem_vowel_loss E tokens vw). annotated c"
proof -
  have "\<forall>c \<in> set (concat (map (\<lambda>token. concat (map (stem_vowel_loss_body vw token) (VOWELS E)))
                              (set_iter E tokens))). vowel_loss c \<noteq> None"
    using stem_vowel_loss_body_annotated by fastforce
  then show ?thesis
    using set_update_subset [of "[]"] unfolding stem_vowel_loss_def annotated_def by fastforce
qed

lemma stem_suf_phch_dr_annotated:
  "stem_suf_phch_dr suffix stem = Inr out \<Longrightarrow> \<forall>c \<in> set out. annotated c"
  by (auto simp: stem_suf_phch_dr_def bind_eq_Inr annotated_def split: if_splits)

lemma stem_suf_phch_annotated:
  "stem_suf_phch old new tag stem = Inr out \<Longrightarrow> \<forall>c \<in> set out. annotated c"
  by (auto simp: stem_suf_phch_def bind_eq_Inr annotated_def split: if_splits)

lemma stem_suf_vwls_mtts_annotated:
  assumes "iter_permutes E" and "stem_suf_vwls_mtts E vw stem = Inr out"
  shows "\<forall>c \<in> set out. annotated c"
proof -
  from assms(2) have
    "out = [] \<or> (\<exists>swapped. out = set_iter E (stem_vowel_loss E [stem] vw)
           @ (if is_true (is_valid (swapped\<lparr>metathesis := Some True\<rparr>) vw)
              then [swapped\<lparr>metathesis := Some True\<rparr>]
              else set_iter E (stem_vowel_loss E [swapped\<lparr>metathesis := Some True\<rparr>] vw)))"
    by (auto simp: stem_suf_vwls_mtts_def bind_eq_Inr Let_def split: if_splits)
  moreover have "annotated (swapped\<lparr>metathesis := Some True\<rparr>)" for swapped
    by (simp add: annotated_def)
  moreover have "c \<in> set (set_iter E (stem_vowel_loss E ts vw)) \<Longrightarrow> annotated c" for ts c
    using stem_vowel_loss_annotated [of E ts vw] by (simp add: iter_set [OF assms(1)])
  ultimately show ?thesis by (auto split: if_splits)
qed

lemma stem_suf_derive_annotated:
  assumes "iter_permutes E" and "stem_suf_derive E vw suffix stem = Inr out" and "annotated stem"
  shows "\<forall>c \<in> set out. annotated c"
proof -
  from assms(2) obtain dr ou ei vm where
    "stem_suf_phch_dr suffix stem = Inr dr"
    "stem_suf_phch CHR ''u'' CHR ''o'' ''suf: o/u'' stem = Inr ou"
    "stem_suf_phch CHR ''i'' CHR ''e'' ''suf: e/i'' stem = Inr ei"
    "stem_suf_vwls_mtts E vw stem = Inr vm" "out = [stem] @ dr @ ou @ ei @ vm"
    by (auto simp: stem_suf_derive_def bind_eq_Inr)
  then show ?thesis
    using assms(3) stem_suf_phch_dr_annotated stem_suf_phch_annotated
      stem_suf_vwls_mtts_annotated [OF assms(1)]
    by fastforce
qed

lemma stem_suf_body_annotated:
  assumes "iter_permutes E" and "stem_suf_body E vw token suffix = Inr out"
  shows "\<forall>c \<in> set out. annotated c"
proof -
  define cut where
    "cut = token\<lparr>text := slice (text token) 0 (length (text token) - length suffix)\<rparr>"
  from assms(2) have
    "out = [] \<or> stem_suf_derive E vw suffix (cut\<lparr>contraction := Some suffix\<rparr>) = Inr out
     \<or> stem_suf_derive E vw suffix (cut\<lparr>suf := Some suffix\<rparr>) = Inr out"
    unfolding stem_suf_body_def Let_def cut_def
    by (auto simp only: sum.inject split: if_splits)
  moreover have "annotated (cut\<lparr>contraction := Some suffix\<rparr>)" "annotated (cut\<lparr>suf := Some suffix\<rparr>)"
    by (simp_all add: annotated_def)
  ultimately show ?thesis using stem_suf_derive_annotated [OF assms(1)] by fastforce
qed

lemma first_match_member: "first_match ps = Some r \<Longrightarrow> r \<in> snd ` set ps"
  by (induction ps) (auto split: if_splits)

lemma rep_patterns_two_results:
  "map snd (rep_patterns_two E token) =
     [token\<lparr>text := slice_from (text token) 1, rep := Some (at (text token) 0)\<rparr>,
      rep_cut token 2, rep_cut token 2, rep_cut token 2, rep_cut token 3]"
  by (simp add: rep_patterns_two_def Let_def)

lemma rep_patterns_three_results:
  "map snd (rep_patterns_three E token) =
     [rep_cut token 2, rep_cut token 2, rep_cut token 3, rep_cut token 3, rep_cut token 4]"
  by (simp add: rep_patterns_three_def Let_def)

lemma first_match_rep:
  assumes "first_match (rep_patterns_three E token) = Some c
           \<or> first_match (rep_patterns_two E token) = Some c"
  shows "\<exists>t r. c = token\<lparr>text := t, rep := Some r\<rparr>"
proof -
  from assms have "c \<in> set (map snd (rep_patterns_three E token))
                   \<or> c \<in> set (map snd (rep_patterns_two E token))"
    using first_match_member [of _ c] by auto
  then show ?thesis
    unfolding rep_patterns_two_results rep_patterns_three_results rep_cut_def
    by auto
qed

lemma stem_rep_body_member:
  assumes "c \<in> set (stem_rep_body E token)"
  shows "first_match (rep_patterns_three E token) = Some c
         \<or> first_match (rep_patterns_two E token) = Some c"
proof (cases "first_match (rep_patterns_three E token)")
  case None
  then show ?thesis
    using assms by (cases "first_match (rep_patterns_two E token)")
      (simp_all add: stem_rep_body_chain split: if_splits)
next
  case (Some a)
  then show ?thesis using assms by (simp add: stem_rep_body_chain split: if_splits)
qed

lemma stem_rep_body_annotated: "\<forall>c \<in> set (stem_rep_body E token). rep c \<noteq> None"
  using first_match_rep [OF stem_rep_body_member] by fastforce

lemma stem_dup_parts_annotated: "\<forall>c \<in> set (stem_dup_parts token f s). dup c \<noteq> None"
  by (simp add: stem_dup_parts_def Let_def)

lemma stem_dup_body_cases:
  "stem_dup_body token = [] \<or> (\<exists>f s. split CHR ''-'' (text token) = [f, s]
      \<and> stem_dup_body token = stem_dup_parts token f s)"
  by (simp add: stem_dup_body_def Let_def split: list.split)

lemma stem_dup_body_annotated: "\<forall>c \<in> set (stem_dup_body token). dup c \<noteq> None"
  using stem_dup_body_cases [of token] stem_dup_parts_annotated by fastforce

lemma collect_collect_all:
  assumes "collect (\<lambda>token. collect (body token) affixes) tokens = Inr out"
    and "\<And>token affix added c. body token affix = Inr added \<Longrightarrow> c \<in> set added \<Longrightarrow> P c"
  shows "\<forall>c \<in> set out. P c"
proof (rule collect_all [OF assms(1)])
  fix token added c
  assume "collect (body token) affixes = Inr added" and "c \<in> set added"
  then show "P c" using collect_all [of "body token" affixes added P] assms(2) by blast
qed

lemma stem_pre_annotated:
  assumes "stem_pre E tokens = Inr out"
  shows "\<forall>c \<in> set out. annotated c"
proof -
  from assms obtain added where
    a: "collect (\<lambda>token. collect (stem_pre_body E token) (PREFIXES E)) (set_iter E tokens) = Inr added"
    and o: "out = set_update [] added"
    by (auto simp: stem_pre_def bind_eq_Inr)
  have "\<forall>c \<in> set added. annotated c"
    using stem_pre_body_pre by (intro collect_collect_all [OF a]) (auto simp: annotated_def)
  then show ?thesis using set_update_subset [of "[]" added] o by auto
qed

lemma stem_inf_annotated:
  assumes "stem_inf E tokens = Inr out"
  shows "\<forall>c \<in> set out. annotated c"
proof -
  from assms obtain added where
    a: "collect (\<lambda>token. collect (stem_inf_body E token) (INFIXES E)) (set_iter E tokens) = Inr added"
    and o: "out = set_update [] added"
    by (auto simp: stem_inf_def bind_eq_Inr)
  have "\<forall>c \<in> set added. annotated c"
    using stem_inf_body_inf by (intro collect_collect_all [OF a]) (auto simp: annotated_def)
  then show ?thesis using set_update_subset [of "[]" added] o by auto
qed

lemma stem_suf_annotated:
  assumes "iter_permutes E" and "stem_suf E tokens vw = Inr out"
  shows "\<forall>c \<in> set out. annotated c"
proof -
  from assms(2) obtain added where
    a: "collect (\<lambda>token. collect (stem_suf_body E vw token) (SUFFIXES E)) (set_iter E tokens)
        = Inr added"
    and o: "out = set_update [] added"
    by (auto simp: stem_suf_def bind_eq_Inr)
  have "\<forall>c \<in> set added. annotated c"
    using stem_suf_body_annotated [OF assms(1)] by (intro collect_collect_all [OF a]) auto
  then show ?thesis using set_update_subset [of "[]" added] o by auto
qed

lemma stem_rep_annotated: "\<forall>c \<in> set (stem_rep E tokens). annotated c"
  using set_update_subset [of "[]"] stem_rep_body_annotated
  unfolding stem_rep_def annotated_def by fastforce

lemma stem_dup_annotated: "\<forall>c \<in> set (stem_dup E tokens). annotated c"
  using set_update_subset [of "[]"] stem_dup_body_annotated
  unfolding stem_dup_def annotated_def by fastforce

lemma run_rule_annotated:
  assumes "iter_permutes E" and "run_rule E f tokens vw = Inr out"
  shows "\<forall>c \<in> set out. annotated c"
  using assms stem_pre_annotated stem_inf_annotated stem_suf_annotated stem_rep_annotated
    stem_dup_annotated
  by (cases f) (auto simp: run_rule_def)

lemma apply_stemming_annotated:
  assumes "iter_permutes E"
  shows "apply_stemming E fs S vw = Inr S' \<Longrightarrow> \<forall>c \<in> set S'. c \<in> set S \<or> annotated c"
proof (induction fs arbitrary: S)
  case Nil
  then show ?case by simp
next
  case (Cons f fs)
  from Cons.prems obtain new where
    n: "run_rule E f S vw = Inr new"
    and r: "apply_stemming E fs (set_update S (set_iter E new)) vw = Inr S'"
    by (auto simp: bind_eq_Inr)
  have "\<forall>c \<in> set (set_update S (set_iter E new)). c \<in> set S \<or> annotated c"
    using set_update_subset [of S "set_iter E new"] run_rule_annotated [OF assms n]
    by (auto simp: iter_set [OF assms])
  then show ?case using Cons.IH [OF r] by blast
qed

lemma get_stem_candidates_annotated:
  assumes "iter_permutes E" and "get_stem_candidates E w vw = Inr found"
  shows "\<forall>c \<in> set found. c = Stem (lower (strip w)) \<or> annotated c"
proof -
  from assms(2) obtain stems kept where
    a: "apply_stemming E [F_dup, F_pre, F_rep, F_inf, F_rep, F_suf, F_dup]
          [Stem (lower (strip w))] vw = Inr stems"
    and k: "keep_candidates E vw (set_iter E stems) = Inr kept"
    and f: "found = (if kept \<noteq> [] then sort_candidates kept else [Stem (lower (strip w))])"
    by (auto simp: get_stem_candidates_def Let_def bind_eq_Inr)
  have "set kept \<subseteq> set stems"
    using keep_candidates_filter [OF k] by (auto simp: iter_set [OF assms(1)])
  then show ?thesis
    using apply_stemming_annotated [OF assms(1) a] f
    by (auto simp: sort_candidates_set split: if_splits)
qed

text \<open>
  C8. A candidate returned by \<^verbatim>\<open>get_stem\<close> whose text differs from the normalised
  input carries at least one annotation: every rule sets a field on each candidate it
  adds, the string operations of \<^verbatim>\<open>Stem\<close> keep the fields, and the only candidate of
  the frontier without annotation is the input token itself.
\<close>

theorem get_stem_annotated:
  assumes "iter_permutes E" and "get_stem E w vw = Inr r" and "text r \<noteq> lower (strip w)"
  shows "annotated r"
proof -
  from assms(2) obtain found where
    f: "get_stem_candidates E (lower (strip w)) vw = Inr found"
    by (auto simp: get_stem_def Let_def bind_eq_Inr Stem_def)
  from get_stem_selects [OF assms(1) f] assms(2,3) have "r \<in> set found"
    using preferred_class_subset by (fastforce simp: Stem_def split: if_splits)
  then have "r = Stem (lower (strip w)) \<or> annotated r"
    using get_stem_candidates_annotated [OF assms(1) f] by (simp add: normalize_idem)
  then show ?thesis using assms(3) by (auto simp: Stem_def)
qed

theorem get_stem_annotated_witness:
  "annotated (Stem ''alis''\<lparr>rep := Some ''a''\<rparr>)"
proof -
  have a: "get_stem env0 ''aalis'' (Some [''aalis'', ''alis'']) = Inr (Stem ''alis''\<lparr>rep := Some ''a''\<rparr>)"
    by code_simp
  have b: "lower (strip ''aalis'') = ''aalis''" by code_simp
  show ?thesis
    using get_stem_annotated [OF iter_permutes_env0 a] by (simp add: b Stem_def)
qed

subsection \<open>The first character of a candidate\<close>

lemma at_0: "t \<noteq> [] \<Longrightarrow> at t 0 = [hd t]"
  by (cases t) (simp_all add: at_def)

lemma slice_0_Cons: "t \<noteq> [] \<Longrightarrow> k > 0 \<Longrightarrow> slice t 0 k = hd t # slice (tl t) 0 (k - 1)"
  by (cases t; cases k) (simp_all add: slice_def)

lemma outside_not_vowel_slice:
  "starts_outside E c \<Longrightarrow> k > 0 \<Longrightarrow> \<not> is_vowel E (slice (text c) 0 k)"
  by (simp add: starts_outside_def letter_def slice_0_Cons is_vowel_def)

lemma outside_not_consonant_slice:
  "starts_outside E c \<Longrightarrow> k > 0 \<Longrightarrow> \<not> is_consonant E (slice (text c) 0 k)"
  by (simp add: starts_outside_def letter_def slice_0_Cons is_consonant_def)

lemma outside_not_consonant_at: "starts_outside E c \<Longrightarrow> \<not> is_consonant E (at (text c) 0)"
  by (simp add: starts_outside_def letter_def at_0)

lemma startswith_hd: "startswith t p \<Longrightarrow> p \<noteq> [] \<Longrightarrow> t \<noteq> [] \<and> hd t = hd p"
  by (cases t; cases p) (auto simp: startswith_def)

lemma outside_not_startswith:
  "starts_outside E c \<Longrightarrow> p \<noteq> [] \<Longrightarrow> letter E (hd p) \<Longrightarrow> \<not> startswith (text c) p"
  using startswith_hd [of "text c" p] by (auto simp: starts_outside_def)

lemma stem_pre_body_outside:
  assumes "starts_outside E token" and "prefix \<noteq> []" and "letter E (hd prefix)"
  shows "stem_pre_body E token prefix = Inr []"
  using outside_not_startswith [OF assms] by (simp add: stem_pre_body_def)

lemma stem_inf_body_outside:
  assumes "starts_outside E token" and "infix \<noteq> []" and "letter E (hd infix)"
  shows "stem_inf_body E token infix = Inr []"
  using outside_not_startswith [OF assms] outside_not_consonant_at [OF assms(1)]
    outside_not_consonant_slice [OF assms(1)]
  by (simp add: stem_inf_body_def Let_def)

lemma stem_rep_body_outside:
  assumes "starts_outside E token"
  shows "stem_rep_body E token = []"
  using outside_not_consonant_at [OF assms] outside_not_consonant_slice [OF assms]
    outside_not_vowel_slice [OF assms]
  by (simp add: stem_rep_body_def Let_def)

lemma hd_list_update: "xs \<noteq> [] \<Longrightarrow> n > 0 \<Longrightarrow> hd (xs[n := x]) = hd xs"
  by (cases xs; cases n) simp_all

lemma replace_letter_result:
  assumes "replace_letter c i l = Inr c'" and "i < 0"
  shows "nat (- i) \<le> length (text c) \<and> nat (- i) > 0
         \<and> c' = c\<lparr>text := (text c)[length (text c) - nat (- i) := l]\<rparr>"
proof -
  from assms(1) obtain x where "index (text c) i = Inr x"
    by (auto simp: replace_letter_def bind_eq_Inr)
  then have "nat (- i) \<le> length (text c)"
    using assms(2) by (auto simp: index_def Let_def split: if_splits)
  then show ?thesis using assms replace_letter_Inr [of i c l] by auto
qed

lemma replace_letter_head:
  assumes "replace_letter c i l = Inr c'" and "i < 0" and "length (text c) > nat (- i)"
  shows "text c' \<noteq> [] \<and> hd (text c') = hd (text c)"
proof -
  have "text c \<noteq> []" "length (text c) - nat (- i) > 0" using assms(3) by auto
  then have "hd ((text c)[length (text c) - nat (- i) := l]) = hd (text c)"
    by (rule hd_list_update)
  then show ?thesis using replace_letter_result [OF assms(1,2)] \<open>text c \<noteq> []\<close> by simp
qed

lemma is_acceptable_outside: "starts_outside E c \<Longrightarrow> is_acceptable E (text c) = Inr False"
  by (cases "text c") (auto simp: starts_outside_def letter_def is_acceptable_def)

lemma at_last: "at s (-1) = [x] \<Longrightarrow> s \<noteq> [] \<and> last s = x"
  by (cases "s = []") (auto simp: at_eq_single index_last)

lemma stem_suf_phch_dr_outside:
  assumes "starts_outside E stem" and "letter E CHR ''r''"
    and "stem_suf_phch_dr suffix stem = Inr out"
  shows "\<forall>c \<in> set out. starts_outside E c"
proof (cases "suffix \<in> set [''in'', ''an''] \<and> at (text stem) (-1) = ''r''")
  case True
  then have l: "text stem \<noteq> []" "last (text stem) = CHR ''r''" using at_last by auto
  have "length (text stem) \<noteq> 1"
  proof
    assume "length (text stem) = 1"
    then have "hd (text stem) = last (text stem)" by (cases "text stem") auto
    then show False using l assms(1,2) by (simp add: starts_outside_def)
  qed
  then have len: "length (text stem) > nat (- (-1))" using l by (cases "text stem") auto
  from assms(3) True obtain c' where
    c': "replace_letter stem (-1) CHR ''d'' = Inr c'"
    and o: "out = [c'\<lparr>phoneme_change := Some ''suf: d/r''\<rparr>]"
    by (auto simp: stem_suf_phch_dr_def bind_eq_Inr)
  from replace_letter_head [OF c' _ len] show ?thesis
    using o assms(1) by (simp add: starts_outside_def)
next
  case False
  then show ?thesis using assms(3) by (auto simp: stem_suf_phch_dr_def)
qed

lemma stem_suf_phch_outside:
  assumes "starts_outside E stem" and "stem_suf_phch old new tag stem = Inr out"
  shows "\<forall>c \<in> set out. starts_outside E c"
proof -
  from assms(2) have
    "out = []
     \<or> (\<exists>c'. length (text stem) > 1 \<and> replace_letter stem (-1) new = Inr c'
              \<and> out = [c'\<lparr>phoneme_change := Some tag\<rparr>])
     \<or> (\<exists>c'. length (text stem) > 2 \<and> replace_letter stem (-2) new = Inr c'
              \<and> out = [c'\<lparr>phoneme_change := Some tag\<rparr>])"
    by (auto simp: stem_suf_phch_def bind_eq_Inr split: if_splits)
  then show ?thesis
    using replace_letter_head [of stem "-1" new] replace_letter_head [of stem "-2" new] assms(1)
    by (auto simp: starts_outside_def)
qed

lemma stem_suf_vwls_mtts_outside:
  "starts_outside E stem \<Longrightarrow> stem_suf_vwls_mtts E vw stem = Inr []"
  by (simp add: stem_suf_vwls_mtts_def is_acceptable_outside)

lemma stem_suf_derive_outside:
  assumes "starts_outside E stem" and "letter E CHR ''r''"
    and "stem_suf_derive E vw suffix stem = Inr out"
  shows "\<forall>c \<in> set out. starts_outside E c"
proof -
  from assms(3) obtain dr ou ei where
    "stem_suf_phch_dr suffix stem = Inr dr"
    "stem_suf_phch CHR ''u'' CHR ''o'' ''suf: o/u'' stem = Inr ou"
    "stem_suf_phch CHR ''i'' CHR ''e'' ''suf: e/i'' stem = Inr ei"
    "out = [stem] @ dr @ ou @ ei"
    by (auto simp: stem_suf_derive_def bind_eq_Inr stem_suf_vwls_mtts_outside [OF assms(1)])
  then show ?thesis
    using assms(1) stem_suf_phch_dr_outside [OF assms(1,2)] stem_suf_phch_outside [OF assms(1)]
    by fastforce
qed

lemma stem_suf_body_ok: "\<exists>out. stem_suf_body E vw token suffix = Inr out"
  using stem_suf_derive_ok [of E vw suffix] by (auto simp: stem_suf_body_def Let_def)

lemma stem_suf_body_outside:
  assumes "starts_outside E token" and "letter E CHR ''r''"
    and "stem_suf_body E vw token suffix = Inr out"
  shows "\<forall>c \<in> set out. starts_outside E c"
proof -
  define cut where
    "cut = token\<lparr>text := slice (text token) 0 (length (text token) - length suffix)\<rparr>"
  from assms(3) have
    "out = [] \<or> (length (text token) > length suffix
        \<and> (stem_suf_derive E vw suffix (cut\<lparr>contraction := Some suffix\<rparr>) = Inr out
           \<or> stem_suf_derive E vw suffix (cut\<lparr>suf := Some suffix\<rparr>) = Inr out))"
    unfolding stem_suf_body_def Let_def cut_def
    by (auto simp only: sum.inject split: if_splits)
  moreover have "starts_outside E (cut\<lparr>contraction := Some suffix\<rparr>)"
    "starts_outside E (cut\<lparr>suf := Some suffix\<rparr>)" if "length (text token) > length suffix"
    using assms(1) that by (simp_all add: starts_outside_def cut_def slice_def)
  ultimately show ?thesis using stem_suf_derive_outside [OF _ assms(2)] by fastforce
qed

lemma split_first: "split sep t = f # rest \<Longrightarrow> f \<noteq> [] \<Longrightarrow> t \<noteq> [] \<and> hd t = hd f"
  by (cases t) (auto split: if_splits list.splits)

lemma hd_drop_last: "length f > k \<Longrightarrow> drop_last f k \<noteq> [] \<and> hd (drop_last f k) = hd f"
  by (cases f) (auto simp: drop_last_def take_Suc_conv_app_nth hd_take)

lemma eq_text_replace_head:
  assumes "eq_text (replace_letter c i l) s" and "i < 0" and "length (text c) > nat (- i)"
  shows "s \<noteq> [] \<and> hd s = hd (text c)"
proof -
  from assms(1) obtain c' where "replace_letter c i l = Inr c'" "text c' = s"
    by (cases "replace_letter c i l") (auto simp: eq_text_def)
  then show ?thesis using replace_letter_head [OF _ assms(2,3)] by auto
qed

lemma at_minus2_head: "length f = 2 \<Longrightarrow> at f (-2) = [x] \<Longrightarrow> hd f = x"
  by (cases f) (auto simp: at_def index_def)

lemma stem_dup_parts_match: "stem_dup_parts token f s \<noteq> [] \<Longrightarrow> dup_match token f s"
  unfolding stem_dup_parts_def dup_match_def Let_def
  by (simp split: if_splits) blast+

lemma stem_dup_parts_text: "\<forall>c \<in> set (stem_dup_parts token f s). text c = s"
  unfolding stem_dup_parts_def Let_def by simp

lemma dup_match_head:
  assumes "dup_match token f s" and "\<not> letter E (hd f)" and "letter E CHR ''u''"
  shows "s \<noteq> [] \<and> hd s = hd f"
proof -
  have f: "f \<noteq> []" "length f > 1" and s: "s \<noteq> []" using assms(1) by (auto simp: dup_match_def)
  have r1: "eq_text (replace_letter (token\<lparr>text := f\<rparr>) (-1) CHR ''o'') s \<Longrightarrow> hd s = hd f"
    using eq_text_replace_head [of "token\<lparr>text := f\<rparr>" "-1"] f by simp
  have r2: "at f (-2) = ''u'' \<Longrightarrow> eq_text (replace_letter (token\<lparr>text := f\<rparr>) (-2) CHR ''o'') s
            \<Longrightarrow> hd s = hd f"
  proof (cases "length f = 2")
    case True
    assume "at f (-2) = ''u''"
    then have "hd f = CHR ''u''" using True by (rule at_minus2_head [rotated])
    then show ?thesis using assms(2,3) by simp
  next
    case False
    assume "eq_text (replace_letter (token\<lparr>text := f\<rparr>) (-2) CHR ''o'') s"
    then show ?thesis
      using eq_text_replace_head [of "token\<lparr>text := f\<rparr>" "-2"] f False by simp
  qed
  have r3: "length f > 3 \<Longrightarrow>
            eq_text (replace_letter (token\<lparr>text := drop_last f 1\<rparr>) (-2) CHR ''o'') s \<Longrightarrow> hd s = hd f"
    using eq_text_replace_head [of "token\<lparr>text := drop_last f 1\<rparr>" "-2" "CHR ''o''" s]
      hd_drop_last [of 1 f]
    by (simp add: drop_last_def)
  have d: "length f > k \<Longrightarrow> drop_last f k = s \<Longrightarrow> hd s = hd f" for k
    using hd_drop_last [of k f] by auto
  have d': "length f > k \<Longrightarrow> drop_last f k @ ''o'' = s \<Longrightarrow> hd s = hd f" for k
    using hd_drop_last [of k f] by auto
  have st: "startswith s f \<Longrightarrow> hd s = hd f" using startswith_hd [of s f] f by simp
  from assms(1) have "hd s = hd f"
    unfolding dup_match_def using r1 r2 r3 d [of 1] d [of 2] d' [of 2] d' [of 3] st by auto
  then show ?thesis using s by simp
qed

lemma stem_dup_body_outside:
  assumes "starts_outside E token" and "letter E CHR ''u''"
  shows "\<forall>c \<in> set (stem_dup_body token). starts_outside E c"
proof (cases "stem_dup_body token = []")
  case True
  then show ?thesis by simp
next
  case False
  then obtain f s where sp: "split CHR ''-'' (text token) = [f, s]"
    and b: "stem_dup_body token = stem_dup_parts token f s"
    using stem_dup_body_cases [of token] by auto
  have m: "dup_match token f s" using False b stem_dup_parts_match by simp
  then have "f \<noteq> []" by (auto simp: dup_match_def)
  then have h: "hd (text token) = hd f" using split_first [OF sp] by simp
  then have "s \<noteq> [] \<and> hd s = hd f"
    using dup_match_head [OF m _ assms(2)] assms(1) by (simp add: starts_outside_def)
  then show ?thesis
    using stem_dup_parts_text [of token f s] b h assms(1) by (simp add: starts_outside_def)
qed

lemma collect_Nil: "(\<And>x. x \<in> set xs \<Longrightarrow> body x = Inr []) \<Longrightarrow> collect body xs = Inr []"
  by (induction xs) simp_all

lemma collect_ok:
  "(\<And>x. x \<in> set xs \<Longrightarrow> \<exists>added. body x = Inr added) \<Longrightarrow> \<exists>out. collect body xs = Inr out"
proof (induction xs)
  case Nil
  then show ?case by simp
next
  case (Cons x xs)
  obtain added where "body x = Inr added" using Cons.prems [of x] by auto
  moreover obtain rest where "collect body xs = Inr rest" using Cons by auto
  ultimately show ?case by simp
qed

lemma stem_pre_outside:
  assumes "iter_permutes E" and "affixes_are_letters E" and "\<forall>c \<in> set S. starts_outside E c"
  shows "stem_pre E S = Inr []"
proof -
  have "collect (stem_pre_body E token) (PREFIXES E) = Inr []" if "token \<in> set S" for token
    using that assms(2,3)
    by (intro collect_Nil stem_pre_body_outside) (auto simp: affixes_are_letters_def list_all_iff)
  then have "collect (\<lambda>token. collect (stem_pre_body E token) (PREFIXES E)) (set_iter E S) = Inr []"
    by (rule collect_Nil) (simp add: iter_set [OF assms(1)])
  then show ?thesis by (simp add: stem_pre_def set_update_def)
qed

lemma stem_inf_outside:
  assumes "iter_permutes E" and "affixes_are_letters E" and "\<forall>c \<in> set S. starts_outside E c"
  shows "stem_inf E S = Inr []"
proof -
  have "collect (stem_inf_body E token) (INFIXES E) = Inr []" if "token \<in> set S" for token
    using that assms(2,3)
    by (intro collect_Nil stem_inf_body_outside) (auto simp: affixes_are_letters_def list_all_iff)
  then have "collect (\<lambda>token. collect (stem_inf_body E token) (INFIXES E)) (set_iter E S) = Inr []"
    by (rule collect_Nil) (simp add: iter_set [OF assms(1)])
  then show ?thesis by (simp add: stem_inf_def set_update_def)
qed

lemma stem_rep_outside:
  assumes "iter_permutes E" and "\<forall>c \<in> set S. starts_outside E c"
  shows "stem_rep E S = []"
proof -
  have c: "concat (map (stem_rep_body E) (set_iter E S)) = []"
    using assms(2) by (simp add: iter_set [OF assms(1)] stem_rep_body_outside)
  show ?thesis unfolding stem_rep_def c by (simp add: set_update_def)
qed

lemma stem_dup_outside:
  assumes "iter_permutes E" and "affixes_are_letters E" and "\<forall>c \<in> set S. starts_outside E c"
  shows "\<forall>c \<in> set (stem_dup E S). starts_outside E c"
proof -
  have u: "letter E CHR ''u''" using assms(2) by (simp add: affixes_are_letters_def)
  have "\<forall>c \<in> set (concat (map stem_dup_body (set_iter E S))). starts_outside E c"
    using assms(3) stem_dup_body_outside [OF _ u] by (auto simp: iter_set [OF assms(1)])
  then show ?thesis using set_update_subset [of "[]"] by (fastforce simp: stem_dup_def)
qed

lemma stem_suf_outside:
  assumes "iter_permutes E" and "affixes_are_letters E" and "\<forall>c \<in> set S. starts_outside E c"
  shows "\<exists>out. stem_suf E S vw = Inr out \<and> (\<forall>c \<in> set out. starts_outside E c)"
proof -
  have r: "letter E CHR ''r''" using assms(2) by (simp add: affixes_are_letters_def)
  have "\<exists>added. collect (stem_suf_body E vw token) (SUFFIXES E) = Inr added" for token
    by (intro collect_ok stem_suf_body_ok)
  then obtain added where
    a: "collect (\<lambda>token. collect (stem_suf_body E vw token) (SUFFIXES E)) (set_iter E S) = Inr added"
    using collect_ok [of "set_iter E S" "\<lambda>token. collect (stem_suf_body E vw token) (SUFFIXES E)"]
    by auto
  have "\<forall>c \<in> set added. starts_outside E c"
  proof (rule collect_all [OF a])
    fix token out c
    assume t: "token \<in> set (set_iter E S)"
      and o: "collect (stem_suf_body E vw token) (SUFFIXES E) = Inr out" and c: "c \<in> set out"
    have "starts_outside E token" using t assms(3) by (simp add: iter_set [OF assms(1)])
    then show "starts_outside E c"
      using collect_all [OF o, of "starts_outside E"] stem_suf_body_outside [OF _ r] c by blast
  qed
  then show ?thesis
    using a set_update_subset [of "[]" added] by (auto simp: stem_suf_def)
qed

lemma run_rule_outside:
  assumes "iter_permutes E" and "affixes_are_letters E" and "\<forall>c \<in> set S. starts_outside E c"
  shows "\<exists>out. run_rule E f S vw = Inr out \<and> (\<forall>c \<in> set out. starts_outside E c)"
  using stem_pre_outside [OF assms] stem_inf_outside [OF assms] stem_rep_outside [OF assms(1,3)]
    stem_dup_outside [OF assms] stem_suf_outside [OF assms, of vw]
  by (cases f) (auto simp: run_rule_def)

lemma apply_stemming_outside:
  assumes "iter_permutes E" and "affixes_are_letters E"
  shows "\<forall>c \<in> set S. starts_outside E c \<Longrightarrow>
         \<exists>S'. apply_stemming E fs S vw = Inr S' \<and> (\<forall>c \<in> set S'. starts_outside E c)"
proof (induction fs arbitrary: S)
  case Nil
  then show ?case by simp
next
  case (Cons f fs)
  obtain new where n: "run_rule E f S vw = Inr new" "\<forall>c \<in> set new. starts_outside E c"
    using run_rule_outside [OF assms Cons.prems] by blast
  have "\<forall>c \<in> set (set_update S (set_iter E new)). starts_outside E c"
    using set_update_subset [of S "set_iter E new"] n(2) Cons.prems
    by (auto simp: iter_set [OF assms(1)])
  from Cons.IH [OF this] show ?case using n(1) by simp
qed

lemma keep_candidates_outside:
  "\<forall>c \<in> set xs. starts_outside E c \<Longrightarrow> keep_candidates E vw xs = Inr []"
  by (induction xs) (simp_all add: is_acceptable_outside)

text \<open>
  C7 (as amended). When the first character of the normalised token is not a letter of
  the alphabet (and the prefixes and infixes begin with letters), no rule yields an
  acceptable candidate: the prefix, infix and partial reduplication rules do not match,
  and what the suffix and full reduplication rules add keeps the first character.
  \<^verbatim>\<open>get_stem\<close> does not raise and returns the token itself, for every lexicon, present
  or absent.
\<close>

theorem get_stem_outside_alphabet:
  assumes "iter_permutes E" and "affixes_are_letters E"
    and "lower (strip w) \<noteq> []" and "\<not> letter E (hd (lower (strip w)))"
  shows "get_stem E w vw = Inr (Stem (lower (strip w)))"
proof -
  define token where "token = Stem (lower (strip w))"
  have t: "\<forall>c \<in> set [token]. starts_outside E c"
    using assms(3,4) by (simp add: token_def starts_outside_def Stem_def)
  obtain stems where
    s: "apply_stemming E [F_dup, F_pre, F_rep, F_inf, F_rep, F_suf, F_dup] [token] vw = Inr stems"
    and o: "\<forall>c \<in> set stems. starts_outside E c"
    using apply_stemming_outside [OF assms(1,2) t] by blast
  have "keep_candidates E vw (set_iter E stems) = Inr []"
    using o by (intro keep_candidates_outside) (simp add: iter_set [OF assms(1)])
  then have "get_stem_candidates E (lower (strip w)) vw = Inr [token]"
    using s by (simp add: get_stem_candidates_def normalize_idem token_def)
  then show ?thesis
    by (simp add: get_stem_def Let_def token_def Stem_def)
qed

theorem get_stem_outside_alphabet_witness:
  "get_stem env0 ''1bilihan'' None = Inr (Stem ''1bilihan'')"
proof -
  have a: "affixes_are_letters env0" by code_simp
  have b: "lower (strip ''1bilihan'') = ''1bilihan''" by code_simp
  have c: "\<not> letter env0 (hd ''1bilihan'')" by code_simp
  show ?thesis
    using get_stem_outside_alphabet [OF iter_permutes_env0 a, of "''1bilihan''" None] c
    by (simp add: b)
qed

text \<open>
  C7 as stated fails, since a character outside the alphabet elsewhere in the token does
  not stop the rules:
  \<^verbatim>\<open>aab1\<close> contains the digit \<^verbatim>\<open>1\<close>, and with no lexicon its stem is \<^verbatim>\<open>ab1\<close>
  (the V-V reduplication is undone and \<^verbatim>\<open>ab1\<close> is acceptable).
\<close>

theorem get_stem_rewrites_mixed_token:
  "\<not> letter env0 CHR ''1'' \<and> CHR ''1'' \<in> set ''aab1''
   \<and> get_stem env0 ''aab1'' None = Inr (Stem ''ab1''\<lparr>rep := Some ''a''\<rparr>)"
  by code_simp

subsection \<open>The fallback of \<^verbatim>\<open>get_stem_candidates\<close>\<close>

lemma keep_candidates_total:
  "keep_candidates E vw xs = Inr (filter (valid_acceptable E vw) xs)"
proof (induction xs)
  case Nil
  then show ?case by simp
next
  case (Cons x xs)
  show ?case
  proof (cases "is_true (is_valid x vw)")
    case True
    then have "text x \<noteq> []" by (auto simp: is_true_def is_valid_def split: option.splits if_splits)
    then obtain b where "is_acceptable E (text x) = Inr b" using is_acceptable_ok by blast
    then show ?thesis using True Cons by (simp add: valid_acceptable_def)
  next
    case False
    then show ?thesis using Cons by (simp add: valid_acceptable_def)
  qed
qed

text \<open>
  X1. Whenever the cascade returns a frontier (does not raise), \<^verbatim>\<open>get_stem_candidates\<close>
  returns a non-empty list: the valid and acceptable candidates of the frontier when
  there is one, and otherwise the singleton list of the normalised token. The filter
  itself never raises: \<^verbatim>\<open>is_acceptable\<close> is only called on a candidate whose
  \<^verbatim>\<open>is_valid\<close> result is true, which is then not the empty string.
\<close>

theorem get_stem_candidates_fallback:
  assumes "iter_permutes E"
    and "apply_stemming E [F_dup, F_pre, F_rep, F_inf, F_rep, F_suf, F_dup]
           [Stem (lower (strip w))] vw = Inr stems"
  shows "\<exists>found. get_stem_candidates E w vw = Inr found \<and> found \<noteq> []
           \<and> (if list_ex (valid_acceptable E vw) stems
               then set found = set (filter (valid_acceptable E vw) stems)
               else found = [Stem (lower (strip w))])"
proof -
  define kept where "kept = filter (valid_acceptable E vw) (set_iter E stems)"
  have g: "get_stem_candidates E w vw
           = Inr (if kept \<noteq> [] then sort_candidates kept else [Stem (lower (strip w))])"
    using assms(2) by (simp add: get_stem_candidates_def keep_candidates_total kept_def)
  have k: "set kept = set (filter (valid_acceptable E vw) stems)"
    by (simp add: kept_def iter_set [OF assms(1)])
  have e: "kept \<noteq> [] \<longleftrightarrow> list_ex (valid_acceptable E vw) stems"
    using k by (auto simp: list_ex_iff filter_empty_conv simp flip: set_empty)
  have "sort_candidates kept \<noteq> []" if "kept \<noteq> []"
    using that sort_candidates_set [of kept] by auto
  then show ?thesis using g k e by (auto simp: sort_candidates_set)
qed

theorem get_stem_candidates_fallback_witness:
  "\<exists>found. get_stem_candidates env0 ''xyz'' (Some [''abc'']) = Inr found \<and> found = [Stem ''xyz'']"
proof -
  have a: "apply_stemming env0 [F_dup, F_pre, F_rep, F_inf, F_rep, F_suf, F_dup]
             [Stem (lower (strip ''xyz''))] (Some [''abc'']) = Inr [Stem ''xyz'']"
    by code_simp
  have b: "lower (strip ''xyz'') = ''xyz''" by code_simp
  have c: "\<not> list_ex (valid_acceptable env0 (Some [''abc''])) [Stem ''xyz'']" by code_simp
  show ?thesis
    using get_stem_candidates_fallback [OF iter_permutes_env0 a] c by (simp add: b)
qed

end
